theory Spec2Isabelle
  imports Complex_Main "HOL-Library.Log_Nat" "HOL-Library.Multiset"
begin

section \<open>JavaScript values\<close>

text \<open>
  A JavaScript number is an IEEE binary64 value. A finite one is given by the rational it
  denotes (the two zeros are identified: no function below tells them apart in its
  result); the infinities and NaN are separate constructors.
\<close>

datatype jsnum = Fin rat | PosInf | NegInf | NaN

text \<open>
  The primitive values a spreadsheet cell or a record field can hold. Strings are byte
  strings in UTF-8: equality, the search for \<open>-\<close> and the removal of every character
  outside \<open>[0-9.-]\<close> agree on bytes and on UTF-16 code units, because every byte of a
  non-ASCII character is above 127.
\<close>

datatype jsval = JUndefined | JNull | JBool bool | JNum jsnum | JStr string

fun truthy :: "jsval \<Rightarrow> bool" where
  "truthy JUndefined = False"
| "truthy JNull = False"
| "truthy (JBool b) = b"
| "truthy (JNum n) = (n \<noteq> NaN \<and> n \<noteq> Fin 0)"
| "truthy (JStr s) = (s \<noteq> [])"

definition is_finite :: "jsnum \<Rightarrow> bool" where
  "is_finite n = (case n of Fin r \<Rightarrow> True | _ \<Rightarrow> False)"

subsection \<open>Rounding a rational to binary64\<close>

text \<open>
  \<open>ilog2 a\<close> is the exponent \<open>e\<close> with \<open>2^e \<le> a < 2^(e+1)\<close> for positive \<open>a\<close>.
\<close>

definition ilog2 :: "rat \<Rightarrow> int" where
  "ilog2 a = (let (p, q) = quotient_of a; d = bitlen p - bitlen q
              in if 2 powi d \<le> a then d else d - 1)"

definition round_half_even :: "rat \<Rightarrow> int" where
  "round_half_even x =
     (let f = \<lfloor>x\<rfloor>; r = x - of_int f
      in if r < 1 / 2 then f
         else if 1 / 2 < r then f + 1
         else if even f then f else f + 1)"

text \<open>
  Round to nearest, ties to even, with 53 significant bits, exponents from \<open>-1022\<close>
  (subnormals share the quantum \<open>2^-1074\<close>) and overflow to infinity from \<open>2^1024\<close>.
\<close>

definition round_magnitude :: "rat \<Rightarrow> rat" where
  "round_magnitude a =
     (let e = max (ilog2 a) (- 1022); q = 2 powi (e - 52)
      in of_int (round_half_even (a / q)) * q)"

definition round_double :: "rat \<Rightarrow> jsnum" where
  "round_double r =
     (if r = 0 then Fin 0
      else let m = round_magnitude \<bar>r\<bar>
           in if 2 ^ 1024 \<le> m then (if r < 0 then NegInf else PosInf)
              else Fin (if r < 0 then - m else m))"

subsection \<open>parseFloat\<close>

definition is_digit :: "char \<Rightarrow> bool" where
  "is_digit c = (48 \<le> (of_char c :: nat) \<and> (of_char c :: nat) \<le> 57)"

definition digit_val :: "char \<Rightarrow> int" where
  "digit_val c = int (of_char c) - 48"

definition decimal :: "string \<Rightarrow> int" where
  "decimal ds = foldl (\<lambda>n c. 10 * n + digit_val c) 0 ds"

text \<open>
  \<open>parseFloat\<close> reads the longest prefix that is a decimal literal: an optional sign,
  then digits with an optional fraction, or a dot followed by digits. Without such a
  prefix the result is NaN. Leading white space, exponents and the word \<open>Infinity\<close>
  are left out: \<open>cleanNumber\<close> calls it on strings over \<open>[0-9.-]\<close> only.
\<close>

definition parseFloat :: "string \<Rightarrow> jsnum" where
  "parseFloat s =
     (let neg = (s \<noteq> [] \<and> hd s = CHR ''-'');
          u = (if s \<noteq> [] \<and> (hd s = CHR ''-'' \<or> hd s = CHR ''+'') then tl s else s);
          ip = takeWhile is_digit u;
          r = dropWhile is_digit u;
          fp = (if r \<noteq> [] \<and> hd r = CHR ''.'' then takeWhile is_digit (tl r) else [])
      in if ip = [] \<and> fp = [] then NaN
         else let mv = of_int (decimal ip) + of_int (decimal fp) / 10 ^ length fp
              in round_double (if neg then - mv else mv))"

section \<open>Scalar normalisers\<close>

text \<open>The characters that \<open>replace(/[^\d.-]/g, '')\<close> keeps.\<close>

definition keeps :: "char \<Rightarrow> bool" where
  "keeps c = (is_digit c \<or> c = CHR ''.'' \<or> c = CHR ''-'')"

text \<open>
  The placeholder literal of the second comparison: the won sign followed by a dash in
  \<open>src/MarketingDashboard.js\<close>, and the same bytes read as Windows-1252 and written
  again as UTF-8 in the longer file.
\<close>

definition won_dash :: string where
  "won_dash = [CHR 0xE2, CHR 0x82, CHR 0xA9, CHR ''-'']"

definition won_dash_mojibake :: string where
  "won_dash_mojibake = [CHR 0xC3, CHR 0xA2, CHR 0xE2, CHR 0x80, CHR 0x9A, CHR 0xC2, CHR 0xA9, CHR ''-'']"

definition cleanNumber_with :: "string \<Rightarrow> jsval \<Rightarrow> jsnum" where
  "cleanNumber_with placeholder v =
     (if \<not> truthy v \<or> v = JStr ''-'' \<or> v = JStr placeholder then Fin 0
      else case v of
        JNum n \<Rightarrow> n
      | JStr s \<Rightarrow>
          (let cleaned = filter keeps s; p = parseFloat cleaned
           in if truthy (JNum p) then p else Fin 0)
      | _ \<Rightarrow> Fin 0)"

text \<open>\<open>cleanNumber\<close> of the full dashboard.\<close>

definition cleanNumber :: "jsval \<Rightarrow> jsnum" where
  "cleanNumber = cleanNumber_with won_dash_mojibake"

text \<open>\<open>cleanNumber\<close> of \<open>src/MarketingDashboard.js\<close>.\<close>

definition cleanNumber_MD :: "jsval \<Rightarrow> jsnum" where
  "cleanNumber_MD = cleanNumber_with won_dash"

subsection \<open>Dates\<close>

text \<open>
  What the page takes from its host: \<open>Date.parse\<close> on a string (the time value in
  milliseconds, \<open>None\<close> for NaN; outside the ISO format the result depends on the engine
  and on the local time zone), the \<open>en-US\<close> number format of \<open>Intl.NumberFormat\<close>, the
  decimal text of a number in a template literal, the message of the TypeError raised by
  reading a property of \<open>undefined\<close>, and the order in which the engine's
  \<open>Array.prototype.sort\<close> leaves an array whose comparator is not consistent: from the
  comparator on positions and the length, the positions in their new order.
\<close>

record host =
  date_parse :: "string \<Rightarrow> int option"
  intl_format :: "jsval \<Rightarrow> string"
  number_to_string :: "jsnum \<Rightarrow> string"
  undefined_read_message :: "string \<Rightarrow> string"
  engine_order :: "(nat \<Rightarrow> nat \<Rightarrow> int) \<Rightarrow> nat \<Rightarrow> nat list"

text \<open>\<open>TimeClip\<close>: a finite number of at most 8.64e15 in magnitude, truncated.\<close>

definition time_clip :: "jsnum \<Rightarrow> int option" where
  "time_clip n =
     (case n of
        Fin r \<Rightarrow> if \<bar>r\<bar> \<le> 8640000000000000 then Some (if 0 \<le> r then \<lfloor>r\<rfloor> else \<lceil>r\<rceil>) else None
      | _ \<Rightarrow> None)"

text \<open>The time value of \<open>new Date(v)\<close>; \<open>None\<close> is an invalid date.\<close>

definition newDate :: "host \<Rightarrow> jsval \<Rightarrow> int option" where
  "newDate h v =
     (case v of
        JStr s \<Rightarrow> date_parse h s
      | JNum n \<Rightarrow> time_clip n
      | JBool b \<Rightarrow> Some (if b then 1 else 0)
      | JNull \<Rightarrow> Some 0
      | JUndefined \<Rightarrow> None)"

fun show_nat :: "nat \<Rightarrow> string" where
  "show_nat n =
     (if n < 10 then [char_of (48 + n)]
      else show_nat (n div 10) @ [char_of (48 + n mod 10)])"

declare show_nat.simps [simp del]

definition pad_left :: "nat \<Rightarrow> string \<Rightarrow> string" where
  "pad_left w s = replicate (w - length s) (CHR ''0'') @ s"

text \<open>
  The calendar of the language: leap years, the lengths of the months, and
  \<open>DayFromYear\<close>, the day number of the first of January.
\<close>

definition leap_year :: "int \<Rightarrow> bool" where
  "leap_year y = (y mod 4 = 0 \<and> (y mod 100 \<noteq> 0 \<or> y mod 400 = 0))"

definition days_in_year :: "int \<Rightarrow> int" where
  "days_in_year y = (if leap_year y then 366 else 365)"

definition month_lengths :: "int \<Rightarrow> int list" where
  "month_lengths y = [31, if leap_year y then 29 else 28, 31, 30, 31, 30, 31, 31, 30, 31, 30, 31]"

definition day_from_year :: "int \<Rightarrow> int" where
  "day_from_year y =
     365 * (y - 1970) + (y - 1969) div 4 - (y - 1901) div 100 + (y - 1601) div 400"

text \<open>
  \<open>YearFromTime\<close> and the day within the year: from the first year of the 400-year
  cycle that holds the day, whole years are taken off while they fit.
\<close>

function year_from :: "int \<Rightarrow> int \<Rightarrow> int \<times> int" where
  "year_from y r = (if days_in_year y \<le> r then year_from (y + 1) (r - days_in_year y) else (y, r))"
  by pat_completeness auto
termination
  by (relation "measure (\<lambda>(y, r). nat r)") (auto simp: days_in_year_def split: if_splits)

declare year_from.simps [simp del]

text \<open>\<open>MonthFromTime\<close> and \<open>DateFromTime\<close>: whole months are taken off while they fit.\<close>

fun month_from :: "int list \<Rightarrow> int \<Rightarrow> int \<Rightarrow> int \<times> int" where
  "month_from [] m r = (m, r)"
| "month_from (l # ls) m r = (if l \<le> r then month_from ls (m + 1) (r - l) else (m, r))"

text \<open>Year, month and day (UTC) of a day number counted from 1970-01-01.\<close>

definition civil_from_days :: "int \<Rightarrow> int \<times> int \<times> int" where
  "civil_from_days day =
     (let z = day + 719528;
          (y, r) = year_from (400 * (z div 146097)) (z mod 146097);
          (m, d) = month_from (month_lengths y) 1 r
      in (y, m, d + 1))"

text \<open>
  \<open>d.toISOString().split('T')[0]\<close> for a valid time value: the UTC date, the year
  with four digits, or with a sign and six digits outside 0..9999.
\<close>

definition iso_date :: "int \<Rightarrow> string" where
  "iso_date t =
     (let (y, m, d) = civil_from_days (t div 86400000);
          ys = (if 0 \<le> y \<and> y \<le> 9999 then pad_left 4 (show_nat (nat y))
                else (if y < 0 then ''-'' else ''+'') @ pad_left 6 (show_nat (nat \<bar>y\<bar>)))
      in ys @ ''-'' @ pad_left 2 (show_nat (nat m)) @ ''-'' @ pad_left 2 (show_nat (nat d)))"

text \<open>
  \<open>formatDate\<close>: \<open>toISOString\<close> throws a RangeError on an invalid date, and the
  \<open>catch\<close> returns the argument.
\<close>

definition formatDate :: "host \<Rightarrow> jsval \<Rightarrow> jsval" where
  "formatDate h date =
     (if \<not> truthy date then JStr ''''
      else if (case date of JStr s \<Rightarrow> CHR ''-'' \<in> set s | _ \<Rightarrow> False) then date
      else case newDate h date of
             Some t \<Rightarrow> JStr (iso_date t)
           | None \<Rightarrow> date)"

section \<open>Rows and records\<close>

text \<open>
  A row of the decoded sheet and a record of the series are objects with string keys.
  Reading a key that is absent gives \<open>undefined\<close>.
\<close>

type_synonym obj = "string \<rightharpoonup> jsval"

definition get_prop :: "obj \<Rightarrow> string \<Rightarrow> jsval" where
  "get_prop r k = (case r k of None \<Rightarrow> JUndefined | Some v \<Rightarrow> v)"

text \<open>\<open>row[k] || ''\<close>\<close>

definition or_empty :: "jsval \<Rightarrow> jsval" where
  "or_empty v = (if truthy v then v else JStr '''')"

definition REGIONS :: "(string \<times> string) list" where
  "REGIONS = [(''KR'', ''Korea''), (''EN'', ''English''),
              (''CNTW'', ''China/Taiwan''), (''JP'', ''Japan'')]"

text \<open>The body of \<open>REGIONS.forEach\<close> in \<open>processData\<close>, for one region.\<close>

definition add_region :: "obj \<Rightarrow> string \<times> string \<Rightarrow> obj \<Rightarrow> obj" where
  "add_region row reg processedRow =
     (let region = fst reg in
      processedRow
        (''GA '' @ region @ '' Cost'' \<mapsto> JNum (cleanNumber (get_prop row (''GA '' @ region @ '' Cost''))),
         ''GA '' @ region @ '' Impression'' \<mapsto> JNum (cleanNumber (get_prop row (''GA '' @ region @ '' Impression''))),
         ''GA '' @ region @ '' Click'' \<mapsto> JNum (cleanNumber (get_prop row (''GA '' @ region @ '' Click''))),
         ''X '' @ region @ '' Cost'' \<mapsto> JNum (cleanNumber (get_prop row (''X '' @ region @ '' Cost''))),
         ''X '' @ region @ '' Impression'' \<mapsto> JNum (cleanNumber (get_prop row (''X '' @ region @ '' Impression''))),
         ''X '' @ region @ '' Click'' \<mapsto> JNum (cleanNumber (get_prop row (''X '' @ region @ '' Click'')))))"

text \<open>The object literal that starts \<open>processedRow\<close>.\<close>

definition core_row :: "host \<Rightarrow> obj \<Rightarrow> obj" where
  "core_row h row =
     [''Date'' \<mapsto> formatDate h (get_prop row ''Date''),
      ''Game Issue'' \<mapsto> or_empty (get_prop row ''Game Issue''),
      ''Steam Issue'' \<mapsto> or_empty (get_prop row ''Steam Issue''),
      ''UA Issue'' \<mapsto> or_empty (get_prop row ''UA Issue''),
      ''Steam Total Traffic'' \<mapsto> JNum (cleanNumber (get_prop row ''Steam Total Traffic'')),
      ''Steam Search'' \<mapsto> JNum (cleanNumber (get_prop row ''Steam Search'')),
      ''Steam 3rd Party'' \<mapsto> JNum (cleanNumber (get_prop row ''Steam 3rd Party'')),
      ''Steam Discount Page'' \<mapsto> JNum (cleanNumber (get_prop row ''Steam Discount Page'')),
      ''Steam Bot'' \<mapsto> JNum (cleanNumber (get_prop row ''Steam Bot'')),
      ''Steam Other page'' \<mapsto> JNum (cleanNumber (get_prop row ''Steam Other page'')),
      ''Wishlist Addition'' \<mapsto> JNum (cleanNumber (get_prop row ''Wishlist Addition'')),
      ''Wishlist Deletions'' \<mapsto> JNum (cleanNumber (get_prop row ''Wishlist Deletions'')),
      ''Purchase&Activations'' \<mapsto> JNum (cleanNumber (get_prop row ''Purchase&Activations'')),
      ''Gifts'' \<mapsto> JNum (cleanNumber (get_prop row ''Gifts'')),
      ''Total Wishlist Balance'' \<mapsto> JNum (cleanNumber (get_prop row ''Total Wishlist Balance''))]"

text \<open>The function that \<open>jsonData.map\<close> applies to each row in \<open>processData\<close>.\<close>

definition processRow :: "host \<Rightarrow> obj \<Rightarrow> obj" where
  "processRow h row = fold (add_region row) REGIONS (core_row h row)"

section \<open>Sorting by date\<close>

text \<open>
  The comparator \<open>(a, b) => new Date(a.Date) - new Date(b.Date)\<close>: the difference of
  the two time values, NaN (\<open>None\<close>) when one of the dates is invalid.
\<close>

definition dateCompare :: "host \<Rightarrow> obj \<Rightarrow> obj \<Rightarrow> int option" where
  "dateCompare h a b =
     (case (newDate h (get_prop a ''Date''), newDate h (get_prop b ''Date'')) of
        (Some x, Some y) \<Rightarrow> Some (x - y)
      | _ \<Rightarrow> None)"

text \<open>\<open>Array.prototype.sort\<close> reads a NaN from the comparator as \<open>+0\<close>.\<close>

definition sort_compare :: "('a \<Rightarrow> 'a \<Rightarrow> int option) \<Rightarrow> 'a \<Rightarrow> 'a \<Rightarrow> int" where
  "sort_compare f x y = (case f x y of None \<Rightarrow> 0 | Some v \<Rightarrow> v)"

text \<open>
  The comparator is consistent on the array when it is the comparison of a total
  preorder there: equality is reflexive, symmetric and transitive, and less and greater
  are transitive.
\<close>

definition consistent_comparator :: "('a \<Rightarrow> 'a \<Rightarrow> int option) \<Rightarrow> 'a list \<Rightarrow> bool" where
  "consistent_comparator f xs =
     (\<forall>a\<in>set xs. \<forall>b\<in>set xs. \<forall>c\<in>set xs.
        sort_compare f a a = 0
        \<and> (sort_compare f a b = 0 \<longrightarrow> sort_compare f b a = 0)
        \<and> (sort_compare f a b = 0 \<longrightarrow> sort_compare f b c = 0 \<longrightarrow> sort_compare f a c = 0)
        \<and> (sort_compare f a b < 0 \<longrightarrow> sort_compare f b c < 0 \<longrightarrow> sort_compare f a c < 0)
        \<and> (0 < sort_compare f a b \<longrightarrow> 0 < sort_compare f b c \<longrightarrow> 0 < sort_compare f a c))"

text \<open>
  With a consistent comparator every engine returns the same array, the stable sort:
  ascending, equal elements in their first order. It is computed here by inserting each
  element into the sorted prefix from the right (the prefix is kept reversed, its last
  element first).
\<close>

fun insert_right :: "('a \<Rightarrow> 'a \<Rightarrow> int option) \<Rightarrow> 'a \<Rightarrow> 'a list \<Rightarrow> 'a list" where
  "insert_right f x [] = [x]"
| "insert_right f x (y # ys) =
     (if 0 < sort_compare f y x then y # insert_right f x ys else x # y # ys)"

definition stable_sort :: "('a \<Rightarrow> 'a \<Rightarrow> int option) \<Rightarrow> 'a list \<Rightarrow> 'a list" where
  "stable_sort f xs = rev (foldl (\<lambda>prefix x. insert_right f x prefix) [] xs)"

text \<open>
  With a comparator that is not consistent the order is the engine's: some permutation
  of the array, found from the outcomes of the comparator alone. A host value that is not
  a permutation of the positions moves nothing.
\<close>

definition engine_sort :: "host \<Rightarrow> ('a \<Rightarrow> 'a \<Rightarrow> int option) \<Rightarrow> 'a list \<Rightarrow> 'a list" where
  "engine_sort h f xs =
     (let p = engine_order h (\<lambda>i j. sort_compare f (xs ! i) (xs ! j)) (length xs)
      in if sort p = [0..<length xs] then map (\<lambda>i. xs ! i) p else xs)"

text \<open>\<open>Array.prototype.sort\<close> with a comparator.\<close>

definition js_sort :: "host \<Rightarrow> ('a \<Rightarrow> 'a \<Rightarrow> int option) \<Rightarrow> 'a list \<Rightarrow> 'a list" where
  "js_sort h f xs = (if consistent_comparator f xs then stable_sort f xs else engine_sort h f xs)"

text \<open>
  What the insertion establishes between an element and its successor: they were
  compared, and either the first did not compare greater, or the second compared greater
  than the first.
\<close>

definition in_order :: "('a \<Rightarrow> 'a \<Rightarrow> int option) \<Rightarrow> 'a \<Rightarrow> 'a \<Rightarrow> bool" where
  "in_order f a b = (sort_compare f a b \<le> 0 \<or> 0 < sort_compare f b a)"

section \<open>The component state and the upload\<close>

datatype js_error = Thrown (message: string)

text \<open>
  The five state variables of the component, and \<open>render_error\<close>: the exception that a
  state updater has thrown. React runs an updater function when it renders the component
  the next time, not inside the call of the setter, so a \<open>try\<close> around that call does
  not catch what the updater throws: the render fails and, the tree having no error
  boundary, React unmounts the component and the page goes blank.
\<close>

record ui_state =
  data :: "obj list"
  error :: string
  selectedRegion :: string
  debugInfo :: string
  isLoading :: bool
  render_error :: "js_error option"

text \<open>\<open>setDebugInfo(prev => ...)\<close> with an updater that may throw.\<close>

definition setDebugInfo :: "(string \<Rightarrow> js_error + string) \<Rightarrow> ui_state \<Rightarrow> ui_state" where
  "setDebugInfo updater st =
     (case updater (debugInfo st) of
        Inr s \<Rightarrow> st\<lparr>debugInfo := s\<rparr>
      | Inl e \<Rightarrow> st\<lparr>render_error := Some e\<rparr>)"

text \<open>The text of a value inside a template literal.\<close>

definition to_string :: "host \<Rightarrow> jsval \<Rightarrow> string" where
  "to_string h v =
     (case v of
        JStr s \<Rightarrow> s
      | JNum n \<Rightarrow> number_to_string h n
      | JBool b \<Rightarrow> (if b then ''true'' else ''false'')
      | JNull \<Rightarrow> ''null''
      | JUndefined \<Rightarrow> ''undefined'')"

definition formatNumber :: "host \<Rightarrow> jsval \<Rightarrow> string" where
  "formatNumber h num = (if num = JUndefined \<or> num = JNull then ''0'' else intl_format h num)"

text \<open>\<open>[...].join('\n')\<close>\<close>

fun join_lines :: "string list \<Rightarrow> string" where
  "join_lines [] = ''''"
| "join_lines [s] = s"
| "join_lines (s # t) = s @ [CHR 0x0A] @ join_lines t"

text \<open>
  \<open>processData\<close>, with the state passed through. \<open>firstRow\<close> and \<open>lastRow\<close> are
  read inside the updater of the summary: on an empty array they are \<open>undefined\<close> and
  the updater throws a TypeError at \<open>firstRow.Date\<close>, when React runs it. No statement
  of \<open>processData\<close> throws in its own frame, so the exception it hands to the caller's
  \<open>catch\<close>, the first component, is always \<open>None\<close>, and \<open>setData\<close> is reached.
\<close>

definition processData :: "host \<Rightarrow> obj list \<Rightarrow> ui_state \<Rightarrow> js_error option \<times> ui_state" where
  "processData h jsonData st =
     (let st1 = st\<lparr>debugInfo := debugInfo st @ [CHR 0x0A] @ ''Total rows found: '' @ show_nat (length jsonData)\<rparr>;
          processedData = js_sort h (dateCompare h) (map (processRow h) jsonData);
          summary = (\<lambda>prev.
            if processedData = [] then Inl (Thrown (undefined_read_message h ''Date''))
            else
              let firstRow = hd processedData;
                  lastRow = last processedData
              in Inr (join_lines
                 [prev,
                  [CHR 0x0A] @ ''Data Processing Complete:'',
                  ''Date Range: '' @ to_string h (get_prop firstRow ''Date'') @ '' to '' @ to_string h (get_prop lastRow ''Date''),
                  [CHR 0x0A] @ ''Latest Metrics:'',
                  ''- Total Traffic: '' @ formatNumber h (get_prop lastRow ''Steam Total Traffic''),
                  ''- Wishlist Balance: '' @ formatNumber h (get_prop lastRow ''Total Wishlist Balance''),
                  ''- GA '' @ selectedRegion st @ '' Clicks: '' @ formatNumber h (get_prop lastRow (''GA '' @ selectedRegion st @ '' Click'')),
                  ''- X '' @ selectedRegion st @ '' Clicks: '' @ formatNumber h (get_prop lastRow (''X '' @ selectedRegion st @ '' Click''))]));
          st2 = setDebugInfo summary st1
      in (None, st2\<lparr>data := processedData\<rparr>))"

text \<open>
  What reading and decoding the chosen file comes to: the FileReader fails (the
  rejection value is an event without a message), \<open>XLSX.read\<close> throws,
  \<open>sheet_to_json\<close> throws after the sheet name is known, or the first sheet's rows
  arrive. The sheet name is the text that the template literal prints.
\<close>

datatype decoded =
    ReaderFailed
  | ReadThrows string
  | SheetThrows string string
  | Rows string "obj list"

text \<open>\<open>readExcelFile\<close>: the promise rejects with an error or resolves with the rows.\<close>

definition readExcelFile :: "decoded \<Rightarrow> ui_state \<Rightarrow> (js_error + obj list) \<times> ui_state" where
  "readExcelFile d st =
     (case d of
        ReaderFailed \<Rightarrow> (Inl (Thrown ''undefined''), st)
      | ReadThrows msg \<Rightarrow> (Inl (Thrown msg), st)
      | SheetThrows name msg \<Rightarrow>
          (Inl (Thrown msg), st\<lparr>debugInfo := debugInfo st @ [CHR 0x0A] @ ''Sheet name: '' @ name\<rparr>)
      | Rows name rows \<Rightarrow>
          (Inr rows, st\<lparr>debugInfo := debugInfo st @ [CHR 0x0A] @ ''Sheet name: '' @ name\<rparr>))"

text \<open>
  \<open>handleFileUpload\<close> of the full dashboard; the argument is the chosen file, its name
  and what decoding it comes to, or \<open>None\<close> when no file was chosen.
\<close>

definition handleFileUpload :: "host \<Rightarrow> (string \<times> decoded) option \<Rightarrow> ui_state \<Rightarrow> ui_state" where
  "handleFileUpload h file st =
     (case file of
        None \<Rightarrow> st\<lparr>debugInfo := ''No file selected''\<rparr>
      | Some (name, d) \<Rightarrow>
          let st1 = st\<lparr>isLoading := True, debugInfo := ''File selected: '' @ name\<rparr>;
              (thrown, st2) =
                 (case readExcelFile d st1 of
                    (Inl err, s) \<Rightarrow> (Some err, s)
                  | (Inr jsonData, s) \<Rightarrow> processData h jsonData s);
              st3 = (case thrown of
                       None \<Rightarrow> st2
                     | Some err \<Rightarrow>
                         st2\<lparr>error := ''Error processing file: '' @ message err,
                             debugInfo := debugInfo st2 @ [CHR 0x0A] @ ''Error: '' @ message err\<rparr>)
          in st3\<lparr>isLoading := False\<rparr>)"

subsection \<open>The shorter component, \<open>src/MarketingDashboard.js\<close>\<close>

text \<open>
  Its row mapping keeps the raw date and adds the two Click columns of the region that
  is selected when the file is read.
\<close>

definition processRow_MD :: "string \<Rightarrow> obj \<Rightarrow> obj" where
  "processRow_MD region row =
     [''Date'' \<mapsto> get_prop row ''Date'',
      ''Steam Total Traffic'' \<mapsto> JNum (cleanNumber_MD (get_prop row ''Steam Total Traffic'')),
      ''Steam Search'' \<mapsto> JNum (cleanNumber_MD (get_prop row ''Steam Search'')),
      ''Steam 3rd Party'' \<mapsto> JNum (cleanNumber_MD (get_prop row ''Steam 3rd Party'')),
      ''Steam Discount Page'' \<mapsto> JNum (cleanNumber_MD (get_prop row ''Steam Discount Page'')),
      ''Steam Bot'' \<mapsto> JNum (cleanNumber_MD (get_prop row ''Steam Bot'')),
      ''Steam Other page'' \<mapsto> JNum (cleanNumber_MD (get_prop row ''Steam Other page'')),
      ''Wishlist Addition'' \<mapsto> JNum (cleanNumber_MD (get_prop row ''Wishlist Addition'')),
      ''Wishlist Deletions'' \<mapsto> JNum (cleanNumber_MD (get_prop row ''Wishlist Deletions'')),
      ''Purchase&Activations'' \<mapsto> JNum (cleanNumber_MD (get_prop row ''Purchase&Activations'')),
      ''Gifts'' \<mapsto> JNum (cleanNumber_MD (get_prop row ''Gifts'')),
      ''Total Wishlist Balance'' \<mapsto> JNum (cleanNumber_MD (get_prop row ''Total Wishlist Balance'')),
      ''GA '' @ region @ '' Click'' \<mapsto> JNum (cleanNumber_MD (get_prop row (''GA '' @ region @ '' Click''))),
      ''X '' @ region @ '' Click'' \<mapsto> JNum (cleanNumber_MD (get_prop row (''X '' @ region @ '' Click'')))]"

definition formatNumber_MD :: "host \<Rightarrow> jsval \<Rightarrow> string" where
  "formatNumber_MD h num = intl_format h (if truthy num then num else JNum (Fin 0))"

text \<open>The \<open>catch\<close> block of its \<open>reader.onload\<close>.\<close>

definition catch_MD :: "string \<Rightarrow> ui_state \<Rightarrow> ui_state" where
  "catch_MD msg st =
     st\<lparr>error := ''Error reading Excel file: '' @ msg,
        debugInfo := debugInfo st @ [CHR 0x0A] @ ''Error: '' @ msg\<rparr>"

text \<open>
  Its \<open>handleFileUpload\<close>. The reader has no \<open>onerror\<close> handler; the sheet name is
  logged after \<open>sheet_to_json\<close> has returned.
\<close>

definition handleFileUpload_MD :: "host \<Rightarrow> (string \<times> decoded) option \<Rightarrow> ui_state \<Rightarrow> ui_state" where
  "handleFileUpload_MD h file st =
     (case file of
        None \<Rightarrow> st\<lparr>debugInfo := ''No file selected''\<rparr>
      | Some (name, d) \<Rightarrow>
          let st1 = st\<lparr>debugInfo := ''File selected: '' @ name\<rparr> in
          case d of
            ReaderFailed \<Rightarrow> st1
          | ReadThrows msg \<Rightarrow> catch_MD msg st1
          | SheetThrows sheet msg \<Rightarrow> catch_MD msg st1
          | Rows sheet rows \<Rightarrow>
              let st2 = st1\<lparr>debugInfo := debugInfo st1 @ [CHR 0x0A] @ ''Sheet name: '' @ sheet
                                @ [CHR 0x0A] @ ''Total rows found: '' @ show_nat (length rows)\<rparr>;
                  jsonData = map (processRow_MD (selectedRegion st)) rows
              in if jsonData = [] then catch_MD (undefined_read_message h ''Date'') st2
                 else
                   let startDate = to_string h (get_prop (hd jsonData) ''Date'');
                       endDate = to_string h (get_prop (last jsonData) ''Date'');
                       lastRow = last jsonData;
                       region = selectedRegion st;
                       st3 = st2\<lparr>debugInfo := debugInfo st2
                         @ [CHR 0x0A] @ ''Date range: '' @ startDate @ '' to '' @ endDate
                         @ [CHR 0x0A, CHR 0x0A] @ ''Latest metrics ('' @ endDate @ ''):''
                         @ [CHR 0x0A] @ ''- Total Traffic: '' @ formatNumber_MD h (get_prop lastRow ''Steam Total Traffic'')
                         @ [CHR 0x0A] @ ''- Total Wishlist Balance: '' @ formatNumber_MD h (get_prop lastRow ''Total Wishlist Balance'')
                         @ [CHR 0x0A] @ ''- GA '' @ region @ '' Clicks: '' @ formatNumber_MD h (get_prop lastRow (''GA '' @ region @ '' Click''))
                         @ [CHR 0x0A] @ ''- X '' @ region @ '' Clicks: '' @ formatNumber_MD h (get_prop lastRow (''X '' @ region @ '' Click''))\<rparr>
                   in st3\<lparr>data := jsonData, error := ''''\<rparr>)"

section \<open>Names used in the statements\<close>

text \<open>The time value that the sort comparator reads from a record.\<close>

definition record_time :: "host \<Rightarrow> obj \<Rightarrow> int option" where
  "record_time h r = newDate h (get_prop r ''Date'')"

text \<open>The annotation columns, the core metric columns and the columns of one region.\<close>

definition annotation_columns :: "string list" where
  "annotation_columns = [''Game Issue'', ''Steam Issue'', ''UA Issue'']"

definition core_columns :: "string list" where
  "core_columns =
     [''Steam Total Traffic'', ''Steam Search'', ''Steam 3rd Party'', ''Steam Discount Page'',
      ''Steam Bot'', ''Steam Other page'', ''Wishlist Addition'', ''Wishlist Deletions'',
      ''Purchase&Activations'', ''Gifts'', ''Total Wishlist Balance'']"

definition region_codes :: "string list" where
  "region_codes = [''KR'', ''EN'', ''CNTW'', ''JP'']"

definition region_columns :: "string \<Rightarrow> string list" where
  "region_columns region =
     [c @ '' '' @ region @ '' '' @ m. c \<leftarrow> [''GA'', ''X''], m \<leftarrow> [''Cost'', ''Impression'', ''Click'']]"

definition numeric_columns :: "string list" where
  "numeric_columns = core_columns @ concat (map region_columns region_codes)"

text \<open>
  The day number of a calendar date, from \<open>DayFromYear\<close> and the lengths of the months
  before it.
\<close>

definition days_in_month :: "int \<Rightarrow> int \<Rightarrow> int" where
  "days_in_month y m = month_lengths y ! nat (m - 1)"

definition days_from_civil :: "int \<Rightarrow> int \<Rightarrow> int \<Rightarrow> int" where
  "days_from_civil y m d = day_from_year y + sum_list (take (nat (m - 1)) (month_lengths y)) + d - 1"

text \<open>The form \<open>YYYY-MM-DD\<close>: four digits, a dash, two digits, a dash, two digits.\<close>

definition is_yyyy_mm_dd :: "string \<Rightarrow> bool" where
  "is_yyyy_mm_dd s =
     (length s = 10 \<and> list_all is_digit (take 4 s) \<and> s ! 4 = CHR ''-''
      \<and> list_all is_digit (take 2 (drop 5 s)) \<and> s ! 7 = CHR ''-''
      \<and> list_all is_digit (drop 8 s))"

text \<open>
  The form of a year outside 0 to 9999: a sign, six digits, a dash, two digits, a dash,
  two digits.
\<close>

definition is_expanded_date :: "string \<Rightarrow> bool" where
  "is_expanded_date s =
     (length s = 13 \<and> (s ! 0 = CHR ''+'' \<or> s ! 0 = CHR ''-'')
      \<and> list_all is_digit (take 6 (drop 1 s)) \<and> s ! 7 = CHR ''-''
      \<and> list_all is_digit (take 2 (drop 8 s)) \<and> s ! 10 = CHR ''-''
      \<and> list_all is_digit (drop 11 s))"

text \<open>\<open>typeof date === 'string' && date.includes('-')\<close>\<close>

definition dash_string :: "jsval \<Rightarrow> bool" where
  "dash_string v = (case v of JStr s \<Rightarrow> CHR ''-'' \<in> set s | _ \<Rightarrow> False)"

subsection \<open>The sort of V8 on a short array\<close>

text \<open>
  V8 sorts an array of fewer than 64 elements in two steps. It takes the longest run at
  the start that ascends, or that descends strictly, and reverses a descending one. Then
  it inserts each remaining element into the sorted prefix at the place a binary search
  finds. The comparator's NaN has been read as 0 before.
\<close>

fun run_tail :: "('a \<Rightarrow> 'a \<Rightarrow> int) \<Rightarrow> bool \<Rightarrow> 'a \<Rightarrow> 'a list \<Rightarrow> nat" where
  "run_tail c descending previous [] = 0"
| "run_tail c descending previous (x # xs) =
     (if (if descending then 0 \<le> c x previous else c x previous < 0) then 0
      else Suc (run_tail c descending x xs))"

function binary_search :: "('a \<Rightarrow> 'a \<Rightarrow> int) \<Rightarrow> 'a \<Rightarrow> 'a list \<Rightarrow> nat \<Rightarrow> nat \<Rightarrow> nat" where
  "binary_search c pivot a left right =
     (if left < right
      then let mid = left + (right - left) div 2
           in if c pivot (a ! mid) < 0 then binary_search c pivot a left mid
              else binary_search c pivot a (mid + 1) right
      else left)"
  by pat_completeness auto
termination
  by (relation "measure (\<lambda>(c, pivot, a, left, right). right - left)") auto

declare binary_search.simps [simp del]

definition binary_insert :: "('a \<Rightarrow> 'a \<Rightarrow> int) \<Rightarrow> 'a list \<Rightarrow> 'a \<Rightarrow> 'a list" where
  "binary_insert c a pivot =
     (let left = binary_search c pivot a 0 (length a) in take left a @ pivot # drop left a)"

definition v8_sort :: "('a \<Rightarrow> 'a \<Rightarrow> int) \<Rightarrow> 'a list \<Rightarrow> 'a list" where
  "v8_sort c xs =
     (case xs of
        x0 # x1 # rest \<Rightarrow>
          let descending = (c x1 x0 < 0);
              n = 2 + run_tail c descending x1 rest;
              run = (if descending then rev (take n xs) else take n xs)
          in foldl (binary_insert c) run (drop n xs)
      | _ \<Rightarrow> xs)"

definition v8_order :: "(nat \<Rightarrow> nat \<Rightarrow> int) \<Rightarrow> nat \<Rightarrow> nat list" where
  "v8_order c n = v8_sort c [0..<n]"

subsection \<open>Example inputs\<close>

text \<open>
  A host that parses the ISO dates of the examples as every engine does (midnight UTC),
  parses the digits \<open>45306\<close> as V8 does (the first of January of that year) and
  rejects every other string, and that sorts as V8 does.
\<close>

definition example_host :: host where
  "example_host =
     \<lparr>date_parse = (\<lambda>s. if s = ''2024-02-01'' then Some 1706745600000
                          else if s = ''2024-01-15'' then Some 1705276800000
                          else if s = ''2024-01-02'' then Some 1704153600000
                          else if s = ''2024-01-01'' then Some 1704067200000
                          else if s = ''45306'' then Some 1367552073600000
                          else None),
      intl_format = (\<lambda>v. ''#''),
      number_to_string = (\<lambda>n. ''#''),
      undefined_read_message = (\<lambda>p. ''Cannot read properties of undefined (reading '' @ p @ '')''),
      engine_order = v8_order\<rparr>"

definition example_state :: ui_state where
  "example_state =
     \<lparr>data = [], error = '''', selectedRegion = ''KR'', debugInfo = '''', isLoading = False,
      render_error = None\<rparr>"

text \<open>
  A batch of seven rows, numbered in \<open>Gifts\<close>: the second of January, the first, a
  date that does not parse, and the first of January four more times.
\<close>

definition dated_row :: "string \<Rightarrow> rat \<Rightarrow> obj" where
  "dated_row date n = [''Date'' \<mapsto> JStr date, ''Gifts'' \<mapsto> JNum (Fin n)]"

definition seven_rows :: "obj list" where
  "seven_rows =
     [dated_row ''2024-01-02'' 1, dated_row ''2024-01-01'' 2, dated_row ''to be announced'' 3,
      dated_row ''2024-01-01'' 4, dated_row ''2024-01-01'' 5, dated_row ''2024-01-01'' 6,
      dated_row ''2024-01-01'' 7]"

definition february_row :: obj where
  "february_row =
     [''Date'' \<mapsto> JStr ''2024-02-01'', ''Steam Total Traffic'' \<mapsto> JStr ''1,000'',
      ''GA KR Click'' \<mapsto> JStr ''50'', ''GA EN Cost'' \<mapsto> JStr ''7'']"

definition january_row :: obj where
  "january_row =
     [''Date'' \<mapsto> JStr ''2024-01-15'', ''Steam Total Traffic'' \<mapsto> JStr ''-'',
      ''GA KR Click'' \<mapsto> JStr '''']"

section \<open>Properties of the scalar normalisers\<close>

lemma filter_keeps_won_dash: "filter keeps won_dash = ''-''"
  by (simp add: won_dash_def keeps_def is_digit_def)

lemma filter_keeps_won_dash_mojibake: "filter keeps won_dash_mojibake = ''-''"
  by (simp add: won_dash_mojibake_def keeps_def is_digit_def)

lemma parseFloat_dash: "parseFloat ''-'' = NaN"
  by (simp add: parseFloat_def)

lemma cleanNumber_with_placeholder:
  "filter keeps p = ''-'' \<Longrightarrow> cleanNumber_with q (JStr p) = Fin 0"
  by (simp add: cleanNumber_with_def parseFloat_dash)

lemma cleanNumber_with_eq:
  assumes "filter keeps p = ''-''" and "filter keeps q = ''-''"
  shows "cleanNumber_with p v = cleanNumber_with q v"
proof (cases "v = JStr p \<or> v = JStr q")
  case True
  then show ?thesis
    using assms cleanNumber_with_placeholder by auto
next
  case False
  then show ?thesis by (simp add: cleanNumber_with_def)
qed

lemma cleanNumber_MD_eq: "cleanNumber_MD v = cleanNumber v"
  unfolding cleanNumber_MD_def cleanNumber_def
  by (rule cleanNumber_with_eq[OF filter_keeps_won_dash filter_keeps_won_dash_mojibake])

lemma ilog2_le:
  assumes "0 < a"
  shows "2 powi (ilog2 a) \<le> a"
proof -
  obtain p q where pq: "quotient_of a = (p, q)" by (cases "quotient_of a")
  have q: "0 < q" using pq quotient_of_denom_pos by blast
  have a: "a = of_int p / of_int q" using pq quotient_of_div by blast
  have p: "0 < p" using assms a q by (simp add: zero_less_divide_iff)
  define d where "d = bitlen p - bitlen q"
  have il: "ilog2 a = (if 2 powi d \<le> a then d else d - 1)"
    by (simp add: ilog2_def pq d_def Let_def)
  have bp: "2 ^ nat (bitlen p - 1) \<le> p" using bitlen_bounds[OF p] by simp
  have bq: "q < 2 ^ nat (bitlen q)" using bitlen_bounds[OF q] by simp
  have bqp: "0 < bitlen q" "0 < bitlen p"
  proof -
    have "bitlen q \<noteq> 0" "bitlen p \<noteq> 0"
      using p q by (simp_all add: bitlen_eq_zero_iff)
    then show "0 < bitlen q" "0 < bitlen p"
      using bitlen_nonneg[of q] bitlen_nonneg[of p] by linarith+
  qed
  have "(2::rat) powi (d - 1) = 2 powi (bitlen p - 1) / 2 powi (bitlen q)"
  proof -
    have "d - 1 = (bitlen p - 1) - bitlen q" by (simp add: d_def)
    moreover have "(2::rat) powi ((bitlen p - 1) - bitlen q) = 2 powi (bitlen p - 1) / 2 powi (bitlen q)"
      by (rule power_int_diff) simp
    ultimately show ?thesis by (simp only:)
  qed
  also have "\<dots> = 2 ^ nat (bitlen p - 1) / 2 ^ nat (bitlen q)"
    using bqp by (simp add: power_int_def)
  also have "\<dots> \<le> of_int p / of_int q"
  proof (rule frac_le)
    show "(0::rat) \<le> of_int p" using p by simp
    show "(2::rat) ^ nat (bitlen p - 1) \<le> of_int p"
      using bp by (metis of_int_le_iff of_int_numeral of_int_power)
    show "(0::rat) < of_int q" using q by simp
    show "(of_int q :: rat) \<le> 2 ^ nat (bitlen q)"
      using bq by (metis less_imp_le of_int_le_iff of_int_numeral of_int_power)
  qed
  finally have "(2::rat) powi (d - 1) \<le> a" using a by simp
  then show ?thesis using il by auto
qed

lemma round_half_even_le: "of_int (round_half_even x) \<le> x + 1 / 2"
  unfolding round_half_even_def Let_def
  by (auto simp: not_less) linarith+


lemma round_magnitude_bound:
  assumes "0 < a" and "a \<le> 10 ^ 308"
  shows "round_magnitude a < 2 ^ 1024"
proof -
  define e where "e = max (ilog2 a) (- 1022)"
  define q :: rat where "q = 2 powi (e - 52)"
  have rm: "round_magnitude a = of_int (round_half_even (a / q)) * q"
    by (simp add: round_magnitude_def e_def q_def Let_def)
  have qpos: "0 < q" by (simp add: q_def)
  have "(2::rat) powi (ilog2 a) \<le> 10 ^ 308"
    using ilog2_le[OF assms(1)] assms(2) by simp
  also have "\<dots> < (2::rat) powi 1024" by simp
  finally have "ilog2 a < 1024"
    by (rule power_int_le_imp_less_exp[rotated]) simp_all
  then have "e - 52 \<le> 971" by (simp add: e_def)
  then have q971: "q \<le> 2 powi 971"
    unfolding q_def by (intro power_int_increasing) simp_all
  have "of_int (round_half_even (a / q)) * q \<le> (a / q + 1 / 2) * q"
    using round_half_even_le[of "a / q"] qpos by (simp only: mult_le_cancel_right_pos)
  also have "\<dots> = a + q / 2" using qpos by (simp add: field_simps)
  also have "\<dots> \<le> 10 ^ 308 + 2 powi 971 / 2" using assms(2) q971 by simp
  also have "\<dots> < 2 ^ 1024" by simp
  finally show ?thesis using rm by simp
qed

lemma round_double_finite:
  assumes "\<bar>r\<bar> \<le> 10 ^ 308"
  shows "is_finite (round_double r)"
proof (cases "r = 0")
  case True
  then show ?thesis by (simp add: round_double_def is_finite_def)
next
  case False
  then have "0 < \<bar>r\<bar>" by simp
  then have "round_magnitude \<bar>r\<bar> < 2 ^ 1024"
    using assms by (rule round_magnitude_bound)
  then have "\<not> 2 ^ 1024 \<le> round_magnitude \<bar>r\<bar>" by (simp only: not_le)
  then show ?thesis using False
    by (simp only: round_double_def is_finite_def Let_def if_False jsnum.case)
qed


lemma decimal_snoc: "decimal (ds @ [c]) = 10 * decimal ds + digit_val c"
  by (simp add: decimal_def)

lemma decimal_bounds:
  "\<forall>c\<in>set ds. is_digit c \<Longrightarrow> 0 \<le> decimal ds \<and> decimal ds < 10 ^ length ds"
proof (induction ds rule: rev_induct)
  case Nil
  then show ?case by (simp add: decimal_def)
next
  case (snoc c ds)
  then have "0 \<le> digit_val c \<and> digit_val c \<le> 9"
    by (auto simp: is_digit_def digit_val_def)
  then show ?case using snoc by (simp add: decimal_snoc)
qed

lemma takeWhile_digits_le: "length (takeWhile is_digit u) \<le> length (filter is_digit u)"
  by (induction u) auto

lemma mantissa_bound:
  assumes ip: "length (takeWhile is_digit u) \<le> 308"
  shows "\<bar>of_int (decimal (takeWhile is_digit u))
          + of_int (decimal (takeWhile is_digit w)) / 10 ^ length (takeWhile is_digit w) :: rat\<bar> \<le> 10 ^ 308"
proof -
  define ip where "ip = takeWhile is_digit u"
  define fp where "fp = takeWhile is_digit w"
  have dip: "0 \<le> decimal ip \<and> decimal ip < 10 ^ length ip"
    unfolding ip_def by (rule decimal_bounds) (auto dest: set_takeWhileD)
  have dfp: "0 \<le> decimal fp \<and> decimal fp < 10 ^ length fp"
    unfolding fp_def by (rule decimal_bounds) (auto dest: set_takeWhileD)
  have f1: "(of_int (decimal fp) :: rat) / 10 ^ length fp \<le> 1"
  proof -
    have "decimal fp \<le> 10 ^ length fp" using dfp by simp
    then have "(of_int (decimal fp) :: rat) \<le> of_int (10 ^ length fp)"
      by (simp only: of_int_le_iff)
    then show ?thesis by simp
  qed
  have f0: "0 \<le> (of_int (decimal fp) :: rat) / 10 ^ length fp" using dfp by simp
  have "decimal ip + 1 \<le> 10 ^ length ip" using dip by simp
  also have "\<dots> \<le> 10 ^ 308" using ip unfolding ip_def by (intro power_increasing) simp_all
  finally have "(of_int (decimal ip + 1) :: rat) \<le> of_int (10 ^ 308)"
    by (simp only: of_int_le_iff)
  then have i1: "(of_int (decimal ip) :: rat) + 1 \<le> 10 ^ 308" by simp
  have i0: "0 \<le> (of_int (decimal ip) :: rat)" using dip by simp
  show ?thesis
    unfolding ip_def[symmetric] fp_def[symmetric] using f0 f1 i0 i1 by linarith
qed

lemma parseFloat_not_infinite:
  assumes "length (filter is_digit s) \<le> 308"
  shows "parseFloat s = NaN \<or> is_finite (parseFloat s)"
proof -
  define u where "u = (if s \<noteq> [] \<and> (hd s = CHR ''-'' \<or> hd s = CHR ''+'') then tl s else s)"
  define w where "w = tl (dropWhile is_digit u)"
  have "length (filter is_digit u) \<le> length (filter is_digit s)"
    by (cases s) (auto simp: u_def)
  then have ip: "length (takeWhile is_digit u) \<le> 308"
    using takeWhile_digits_le[of u] assms by linarith
  have m1: "\<bar>of_int (decimal (takeWhile is_digit u))
          + of_int (decimal (takeWhile is_digit w)) / 10 ^ length (takeWhile is_digit w) :: rat\<bar> \<le> 10 ^ 308"
    using ip by (rule mantissa_bound)
  have m2: "\<bar>of_int (decimal (takeWhile is_digit u))
          + of_int (decimal []) / 10 ^ length ([]::string) :: rat\<bar> \<le> 10 ^ 308"
    using mantissa_bound[OF ip, of "[]"] by simp
  show ?thesis
    unfolding parseFloat_def Let_def u_def[symmetric] w_def[symmetric]
    using m1 m2 by (auto intro!: round_double_finite simp del: power_numeral)
qed

lemma filter_digit_keeps: "filter is_digit (filter keeps s) = filter is_digit s"
  by (induction s) (auto simp: keeps_def)

lemma cleanNumber_with_not_NaN: "cleanNumber_with p v \<noteq> NaN"
  by (cases v) (auto simp: cleanNumber_with_def Let_def)

lemma cleanNumber_with_finite:
  assumes "v \<noteq> JNum PosInf" and "v \<noteq> JNum NegInf"
    and "\<forall>s. v = JStr s \<longrightarrow> length (filter is_digit s) \<le> 308"
  shows "is_finite (cleanNumber_with p v)"
proof (cases v)
  case (JNum n)
  then show ?thesis using assms by (cases n) (auto simp: cleanNumber_with_def is_finite_def)
next
  case (JStr s)
  then have "length (filter is_digit s) \<le> 308"
    using assms by simp
  then have "length (filter is_digit (filter keeps s)) \<le> 308"
    by (simp only: filter_digit_keeps)
  then have "parseFloat (filter keeps s) = NaN \<or> is_finite (parseFloat (filter keeps s))"
    by (rule parseFloat_not_infinite)
  then show ?thesis using JStr by (auto simp: cleanNumber_with_def Let_def is_finite_def)
qed (auto simp: cleanNumber_with_def is_finite_def)

text \<open>From 309 digits on, a string can parse to an infinity.\<close>

lemma ilog2_gt:
  assumes "0 < a"
  shows "a < 2 powi (ilog2 a + 1)"
proof -
  obtain p q where pq: "quotient_of a = (p, q)" by (cases "quotient_of a")
  have q: "0 < q" using pq quotient_of_denom_pos by blast
  have a: "a = of_int p / of_int q" using pq quotient_of_div by blast
  have p: "0 < p" using assms a q by (simp add: zero_less_divide_iff)
  define d where "d = bitlen p - bitlen q"
  have il: "ilog2 a = (if 2 powi d \<le> a then d else d - 1)"
    by (simp add: ilog2_def pq d_def Let_def)
  have bp: "p < 2 ^ nat (bitlen p)" using bitlen_bounds[OF p] by simp
  have bq: "2 ^ nat (bitlen q - 1) \<le> q" using bitlen_bounds[OF q] by simp
  have bqp: "0 < bitlen q" "0 < bitlen p"
  proof -
    have "bitlen q \<noteq> 0" "bitlen p \<noteq> 0"
      using p q by (simp_all add: bitlen_eq_zero_iff)
    then show "0 < bitlen q" "0 < bitlen p"
      using bitlen_nonneg[of q] bitlen_nonneg[of p] by linarith+
  qed
  have "a = of_int p / of_int q" by (rule a)
  also have "\<dots> < 2 ^ nat (bitlen p) / 2 ^ nat (bitlen q - 1)"
  proof (rule frac_less)
    show "(0::rat) \<le> of_int p" using p by simp
    show "(of_int p :: rat) < 2 ^ nat (bitlen p)"
      using bp by (metis of_int_less_iff of_int_numeral of_int_power)
    show "(0::rat) < 2 ^ nat (bitlen q - 1)" by simp
    show "(2::rat) ^ nat (bitlen q - 1) \<le> of_int q"
      using bq by (metis of_int_le_iff of_int_numeral of_int_power)
  qed
  also have "\<dots> = 2 powi (bitlen p) / 2 powi (bitlen q - 1)"
    using bqp by (simp add: power_int_def)
  also have "\<dots> = (2::rat) powi (d + 1)"
  proof -
    have "d + 1 = bitlen p - (bitlen q - 1)" by (simp add: d_def)
    moreover have "(2::rat) powi (bitlen p - (bitlen q - 1)) = 2 powi (bitlen p) / 2 powi (bitlen q - 1)"
      by (rule power_int_diff) simp
    ultimately show ?thesis by (simp only:)
  qed
  finally have up: "a < 2 powi (d + 1)" .
  show ?thesis
  proof (cases "2 powi d \<le> a")
    case True
    then show ?thesis using il up by simp
  next
    case False
    then show ?thesis using il by simp
  qed
qed

lemma round_half_even_ge_floor: "\<lfloor>x\<rfloor> \<le> round_half_even x"
  by (simp add: round_half_even_def Let_def)

lemma round_magnitude_overflow:
  assumes "2 ^ 1024 \<le> a"
  shows "2 ^ 1024 \<le> round_magnitude a"
proof -
  have pos: "0 < a" using assms by (rule less_le_trans[rotated]) simp
  define e where "e = ilog2 a"
  define q :: rat where "q = 2 powi (e - 52)"
  have "(2::rat) powi 1024 \<le> a" using assms by simp
  also have "a < 2 powi (e + 1)" unfolding e_def using pos by (rule ilog2_gt)
  finally have lt: "(2::rat) powi 1024 < 2 powi (e + 1)" .
  have e: "1024 \<le> e"
  proof (rule ccontr)
    assume "\<not> 1024 \<le> e"
    then have "e + 1 \<le> 1024" by simp
    then have "(2::rat) powi (e + 1) \<le> 2 powi 1024"
      by (intro power_int_increasing) simp_all
    then show False using lt by simp
  qed
  then have emax: "max (ilog2 a) (- 1022) = e" by (simp add: e_def)
  have rm: "round_magnitude a = of_int (round_half_even (a / q)) * q"
    by (simp add: round_magnitude_def emax q_def Let_def)
  have qpos: "0 < q" by (simp add: q_def)
  have split: "(2::rat) powi e = 2 ^ 52 * q"
  proof -
    have "(2::rat) powi (e - 52) = 2 powi e / 2 powi 52" by (rule power_int_diff) simp
    then show ?thesis by (simp add: q_def)
  qed
  have "2 ^ 52 * q \<le> a" using ilog2_le[OF pos] split by (simp add: e_def)
  then have "(2::rat) ^ 52 \<le> a / q" using qpos by (simp add: pos_le_divide_eq)
  then have "(of_int (2 ^ 52) :: rat) \<le> a / q" by simp
  then have "2 ^ 52 \<le> \<lfloor>a / q\<rfloor>" by (simp only: le_floor_iff)
  then have "2 ^ 52 \<le> round_half_even (a / q)"
    using round_half_even_ge_floor[of "a / q"] by linarith
  then have "(of_int (2 ^ 52) :: rat) \<le> of_int (round_half_even (a / q))"
    by (simp only: of_int_le_iff)
  then have "2 ^ 52 * q \<le> of_int (round_half_even (a / q)) * q"
    using qpos by simp
  then have "(2::rat) powi e \<le> round_magnitude a" by (simp only: rm split)
  moreover have "(2::rat) powi 1024 \<le> 2 powi e"
    using e by (intro power_int_increasing) simp_all
  ultimately show ?thesis by simp
qed

lemma round_double_overflow: "2 ^ 1024 \<le> r \<Longrightarrow> round_double r = PosInf"
proof -
  assume r: "2 ^ 1024 \<le> r"
  then have pos: "0 < r" by (rule less_le_trans[rotated]) simp
  then have "\<bar>r\<bar> = r" by simp
  then have "2 ^ 1024 \<le> round_magnitude \<bar>r\<bar>"
    using round_magnitude_overflow[OF r] by (simp only:)
  then show ?thesis using pos by (simp only: round_double_def Let_def) simp
qed

lemma decimal_nines: "decimal (replicate n (CHR ''9'')) = 10 ^ n - 1"
proof (induction n)
  case 0
  then show ?case by (simp add: decimal_def)
next
  case (Suc n)
  have "replicate (Suc n) (CHR ''9'') = replicate n (CHR ''9'') @ [CHR ''9'']"
    by (simp add: replicate_append_same)
  then show ?case using Suc by (simp add: decimal_snoc digit_val_def)
qed

lemma parseFloat_nines:
  assumes "309 \<le> n"
  shows "parseFloat (replicate n (CHR ''9'')) = PosInf"
proof -
  define s where "s = replicate n (CHR ''9'')"
  have n: "0 < n" using assms by simp
  have s: "s \<noteq> []" "hd s = CHR ''9''" "takeWhile is_digit s = s" "dropWhile is_digit s = []"
    using n by (auto simp: s_def is_digit_def)
  have "(10::int) ^ 309 \<le> 10 ^ n" using assms by (intro power_increasing) simp_all
  then have "(2::int) ^ 1024 \<le> 10 ^ n - 1" by simp
  then have "(of_int (2 ^ 1024) :: rat) \<le> of_int (10 ^ n - 1)" by (simp only: of_int_le_iff)
  then have big: "(2::rat) ^ 1024 \<le> of_int (decimal s)"
    by (simp add: s_def decimal_nines)
  have u: "(if s \<noteq> [] \<and> (hd s = CHR ''-'' \<or> hd s = CHR ''+'') then tl s else s) = s"
    using s(1,2) by simp
  have neg: "(s \<noteq> [] \<and> hd s = CHR ''-'') = False"
    using s(2) by simp
  have "parseFloat s = round_double (of_int (decimal s))"
    by (simp only: parseFloat_def Let_def u neg s(3,4)) (simp add: s(1) decimal_def)
  then show ?thesis using round_double_overflow[OF big] by (simp add: s_def)
qed

lemma cleanNumber_many_nines:
  assumes "309 \<le> n"
  shows "cleanNumber (JStr (replicate n (CHR ''9''))) = PosInf"
    and "cleanNumber_MD (JStr (replicate n (CHR ''9''))) = PosInf"
proof -
  define s where "s = replicate n (CHR ''9'')"
  have n: "0 < n" using assms by simp
  have s: "s \<noteq> []" "hd s = CHR ''9''" "filter keeps s = s"
    using n by (auto simp: s_def keeps_def is_digit_def)
  have ne: "s \<noteq> ''-''" "s \<noteq> won_dash" "s \<noteq> won_dash_mojibake"
    using s(2) by (auto simp: won_dash_def won_dash_mojibake_def)
  have "cleanNumber_with p (JStr s) = PosInf" if "s \<noteq> p" for p
    using that s ne parseFloat_nines[OF assms]
    by (simp add: cleanNumber_with_def Let_def s_def)
  then show "cleanNumber (JStr (replicate n (CHR ''9''))) = PosInf"
    and "cleanNumber_MD (JStr (replicate n (CHR ''9''))) = PosInf"
    using ne by (simp_all add: cleanNumber_def cleanNumber_MD_def s_def)
qed

lemma cleanNumber_won_1234:
  "cleanNumber (JStr ([CHR 0xE2, CHR 0x82, CHR 0xA9] @ ''1,234'')) = Fin 1234"
  by code_simp

lemma cleanNumber_minus_42_5: "cleanNumber (JStr ''-42.5'') = Fin (- 85 / 2)"
  by code_simp

lemma round_double_1_2: "round_double (6 / 5) = Fin (5404319552844595 / 4503599627370496)"
  by code_simp

lemma cleanNumber_1_2_3: "cleanNumber (JStr ''1.2.3'') = Fin (5404319552844595 / 4503599627370496)"
  by code_simp

lemma cleanNumber_12_34: "cleanNumber (JStr ''12-34'') = Fin 12"
  by code_simp

text \<open>
  C8. The test vectors of \<open>normalizeNumber\<close>: the won sign before \<open>1,234\<close> gives 1234,
  a lone dash and the empty string give 0, the number 500 is returned as it is, and
  \<open>-42.5\<close> gives -42.5, in both copies of \<open>cleanNumber\<close>.
\<close>

theorem cleanNumber_test_vectors:
  "cleanNumber (JStr ([CHR 0xE2, CHR 0x82, CHR 0xA9] @ ''1,234'')) = Fin 1234
   \<and> cleanNumber (JStr ''-'') = Fin 0
   \<and> cleanNumber (JStr '''') = Fin 0
   \<and> cleanNumber (JNum (Fin 500)) = Fin 500
   \<and> cleanNumber (JStr ''-42.5'') = Fin (- 425 / 10)
   \<and> cleanNumber_MD (JStr ([CHR 0xE2, CHR 0x82, CHR 0xA9] @ ''1,234'')) = Fin 1234
   \<and> cleanNumber_MD (JStr ''-'') = Fin 0
   \<and> cleanNumber_MD (JStr '''') = Fin 0
   \<and> cleanNumber_MD (JNum (Fin 500)) = Fin 500
   \<and> cleanNumber_MD (JStr ''-42.5'') = Fin (- 425 / 10)"
proof -
  have a: "cleanNumber (JStr ''-'') = Fin 0" "cleanNumber (JStr '''') = Fin 0"
    "cleanNumber (JNum (Fin 500)) = Fin 500"
    by (simp_all add: cleanNumber_def cleanNumber_with_def)
  have b: "(- 425 / 10 :: rat) = - 85 / 2" by simp
  show ?thesis
    by (simp only: cleanNumber_MD_eq cleanNumber_won_1234 cleanNumber_minus_42_5 a b simp_thms)
qed

text \<open>
  C10. A string whose stripped form is not a numeral but starts with one gives the value
  of that prefix, not 0: \<open>1.2.3\<close> gives the double written \<open>1.2\<close> and \<open>12-34\<close>
  gives 12, in both copies of \<open>cleanNumber\<close>.
\<close>

theorem cleanNumber_numeric_prefix:
  "cleanNumber (JStr ''1.2.3'') = round_double (12 / 10)
   \<and> cleanNumber (JStr ''1.2.3'') \<noteq> Fin 0
   \<and> cleanNumber (JStr ''12-34'') = Fin 12
   \<and> cleanNumber_MD (JStr ''1.2.3'') = round_double (12 / 10)
   \<and> cleanNumber_MD (JStr ''1.2.3'') \<noteq> Fin 0
   \<and> cleanNumber_MD (JStr ''12-34'') = Fin 12"
  by (simp add: cleanNumber_MD_eq cleanNumber_1_2_3 cleanNumber_12_34 round_double_1_2)

text \<open>
  C2, as stated, fails: the number \<open>Infinity\<close> is returned as it is, so the result is
  not always finite.
\<close>

theorem cleanNumber_infinity_counterexample:
  "\<not> is_finite (cleanNumber (JNum PosInf))"
  by (simp add: cleanNumber_def cleanNumber_with_def is_finite_def)

text \<open>
  C2, amended. \<open>cleanNumber\<close> is total and its result is never NaN. The result is finite
  for every input other than an infinite number and a string with more than 308 digits
  (309 nines parse to \<open>Infinity\<close>: \<open>cleanNumber_many_nines\<close>).
\<close>

theorem cleanNumber_total:
  "cleanNumber v \<noteq> NaN \<and> cleanNumber_MD v \<noteq> NaN
   \<and> (v \<noteq> JNum PosInf \<longrightarrow> v \<noteq> JNum NegInf
        \<longrightarrow> (\<forall>s. v = JStr s \<longrightarrow> length (filter is_digit s) \<le> 308)
        \<longrightarrow> is_finite (cleanNumber v) \<and> is_finite (cleanNumber_MD v))"
  unfolding cleanNumber_def cleanNumber_MD_def
  using cleanNumber_with_not_NaN cleanNumber_with_finite by blast

theorem cleanNumber_total_witness:
  "JStr ''-42.5'' \<noteq> JNum PosInf \<and> JStr ''-42.5'' \<noteq> JNum NegInf
   \<and> length (filter is_digit ''-42.5'') \<le> 308
   \<and> cleanNumber (JStr ''-42.5'') \<noteq> NaN
   \<and> is_finite (cleanNumber (JStr ''-42.5''))
   \<and> is_finite (cleanNumber_MD (JStr ''-42.5''))"
  using cleanNumber_total [of "JStr ''-42.5''"] by (simp add: is_digit_def)

section \<open>Properties of the row mapper\<close>

lemma add_region_apply:
  "add_region row reg m k =
     (if k \<in> set (region_columns (fst reg)) then Some (JNum (cleanNumber (get_prop row k))) else m k)"
  by (simp add: add_region_def region_columns_def Let_def)

lemma fold_add_region_apply:
  "fold (add_region row) regs m k =
     (if \<exists>reg\<in>set regs. k \<in> set (region_columns (fst reg))
      then Some (JNum (cleanNumber (get_prop row k))) else m k)"
  by (induction regs arbitrary: m) (simp_all add: add_region_apply)

lemma fst_REGIONS: "map fst REGIONS = region_codes"
  by (simp add: REGIONS_def region_codes_def)

lemma processRow_apply:
  "processRow h row k =
     (if \<exists>region\<in>set region_codes. k \<in> set (region_columns region)
      then Some (JNum (cleanNumber (get_prop row k))) else core_row h row k)"
proof -
  have "(\<exists>reg\<in>set REGIONS. k \<in> set (region_columns (fst reg)))
        = (\<exists>region\<in>set (map fst REGIONS). k \<in> set (region_columns region))"
    by (simp only: set_map bex_simps)
  then show ?thesis
    by (simp only: processRow_def fold_add_region_apply fst_REGIONS)
qed


lemma core_row_apply:
  "core_row h row k =
     (if k \<in> set core_columns then Some (JNum (cleanNumber (get_prop row k)))
      else if k \<in> set annotation_columns then Some (or_empty (get_prop row k))
      else if k = ''Date'' then Some (formatDate h (get_prop row ''Date''))
      else None)"
  by (simp add: core_row_def core_columns_def annotation_columns_def)

lemma region_column_prefix:
  "k \<in> set (region_columns region) \<Longrightarrow> take 3 k = ''GA '' \<or> take 2 k = ''X ''"
  by (auto simp: region_columns_def)

lemma core_not_region: "k \<in> set core_columns \<Longrightarrow> k \<notin> set (region_columns region)"
  by (auto simp: core_columns_def dest!: region_column_prefix)

lemma annotation_not_region: "k \<in> set annotation_columns \<Longrightarrow> k \<notin> set (region_columns region)"
  by (auto simp: annotation_columns_def dest!: region_column_prefix)

lemma Date_not_region: "''Date'' \<notin> set (region_columns region)"
  by (auto dest!: region_column_prefix)

lemma processRow_Date: "processRow h row ''Date'' = Some (formatDate h (get_prop row ''Date''))"
  by (simp add: processRow_apply Date_not_region core_row_apply core_columns_def annotation_columns_def)

lemma processRow_annotation:
  assumes "k \<in> set annotation_columns"
  shows "processRow h row k = Some (or_empty (get_prop row k))"
proof -
  have "k \<notin> set core_columns"
    using assms by (auto simp: annotation_columns_def core_columns_def)
  then show ?thesis
    using assms by (simp add: processRow_apply annotation_not_region core_row_apply)
qed

lemma processRow_numeric:
  assumes "k \<in> set numeric_columns"
  shows "processRow h row k = Some (JNum (cleanNumber (get_prop row k)))"
proof (cases "k \<in> set core_columns")
  case True
  then show ?thesis by (simp add: processRow_apply core_not_region core_row_apply)
next
  case False
  then have "\<exists>region\<in>set region_codes. k \<in> set (region_columns region)"
    using assms by (auto simp: numeric_columns_def)
  then show ?thesis by (simp only: processRow_apply if_True)
qed

section \<open>Properties of the sort\<close>

lemma insert_right_hd:
  "hd (insert_right f x ys) = x \<or> (ys \<noteq> [] \<and> hd (insert_right f x ys) = hd ys \<and> 0 < sort_compare f (hd ys) x)"
  by (cases ys) auto

lemma insert_right_not_Nil: "insert_right f x ys \<noteq> []"
  by (cases ys) auto

lemma insert_right_successively:
  "successively (\<lambda>b a. in_order f a b) ys \<Longrightarrow> successively (\<lambda>b a. in_order f a b) (insert_right f x ys)"
proof (induction ys)
  case Nil
  then show ?case by simp
next
  case (Cons y ys)
  show ?case
  proof (cases "0 < sort_compare f y x")
    case True
    have tl: "successively (\<lambda>b a. in_order f a b) (insert_right f x ys)"
      using Cons by (cases ys) auto
    obtain z zs where z: "insert_right f x ys = z # zs"
      using insert_right_not_Nil[of f x ys] by (cases "insert_right f x ys") auto
    have "in_order f z y"
    proof (cases "z = x")
      case True
      then show ?thesis using \<open>0 < sort_compare f y x\<close> by (simp add: in_order_def)
    next
      case False
      then have "ys \<noteq> [] \<and> z = hd ys" using insert_right_hd[of f x ys] z by auto
      then show ?thesis using Cons.prems by (cases ys) auto
    qed
    then show ?thesis using True tl z by simp
  next
    case False
    then show ?thesis using Cons.prems by (simp add: in_order_def)
  qed
qed

lemma foldl_insert_right_successively:
  "successively (\<lambda>b a. in_order f a b) acc
   \<Longrightarrow> successively (\<lambda>b a. in_order f a b) (foldl (\<lambda>prefix x. insert_right f x prefix) acc xs)"
  by (induction xs arbitrary: acc) (simp_all add: insert_right_successively)

lemma stable_sort_successively: "successively (in_order f) (stable_sort f xs)"
  unfolding stable_sort_def successively_rev
  by (rule foldl_insert_right_successively) simp

lemma mset_insert_right: "mset (insert_right f x ys) = add_mset x (mset ys)"
  by (induction ys) auto

lemma mset_foldl_insert_right:
  "mset (foldl (\<lambda>prefix x. insert_right f x prefix) acc xs) = mset acc + mset xs"
  by (induction xs arbitrary: acc) (simp_all add: mset_insert_right)

lemma mset_stable_sort: "mset (stable_sort f xs) = mset xs"
  by (simp add: stable_sort_def mset_foldl_insert_right)

lemma length_stable_sort: "length (stable_sort f xs) = length xs"
  using mset_stable_sort[of f xs] by (metis size_mset)

lemma stable_sort_Nil_iff: "stable_sort f xs = [] \<longleftrightarrow> xs = []"
  using length_stable_sort[of f xs] by (metis length_0_conv)

lemma filter_insert_right:
  assumes "\<And>a b. P a \<Longrightarrow> P b \<Longrightarrow> sort_compare f a b \<le> 0"
  shows "filter P (insert_right f x ys) = (if P x then x # filter P ys else filter P ys)"
proof (induction ys)
  case Nil
  then show ?case by simp
next
  case (Cons y ys)
  show ?case
  proof (cases "0 < sort_compare f y x")
    case True
    then have "\<not> (P y \<and> P x)" using assms[of y x] by auto
    then show ?thesis using True Cons.IH by auto
  next
    case False
    then show ?thesis by simp
  qed
qed

lemma filter_foldl_insert_right:
  assumes "\<And>a b. P a \<Longrightarrow> P b \<Longrightarrow> sort_compare f a b \<le> 0"
  shows "filter P (foldl (\<lambda>prefix x. insert_right f x prefix) acc xs) = rev (filter P xs) @ filter P acc"
proof (induction xs arbitrary: acc)
  case Nil
  then show ?case by simp
next
  case (Cons x xs)
  show ?case
    by (simp add: Cons.IH filter_insert_right[of P f, OF assms])
qed

lemma stable_sort_stable:
  assumes "\<And>a b. P a \<Longrightarrow> P b \<Longrightarrow> sort_compare f a b \<le> 0"
  shows "filter P (stable_sort f xs) = filter P xs"
  unfolding stable_sort_def rev_filter[symmetric]
  by (simp add: filter_foldl_insert_right[of P f, OF assms])

lemma dateCompare_valid:
  "record_time h a = Some x \<Longrightarrow> record_time h b = Some y \<Longrightarrow> sort_compare (dateCompare h) a b = x - y"
  by (simp add: sort_compare_def dateCompare_def record_time_def)

lemma in_order_dateCompare:
  "in_order (dateCompare h) a b \<Longrightarrow> record_time h a = Some x \<Longrightarrow> record_time h b = Some y \<Longrightarrow> x \<le> y"
  by (auto simp: in_order_def dateCompare_valid)

lemma mset_engine_sort: "mset (engine_sort h f xs) = mset xs"
proof -
  define p where "p = engine_order h (\<lambda>i j. sort_compare f (xs ! i) (xs ! j)) (length xs)"
  show ?thesis
  proof (cases "sort p = [0..<length xs]")
    case True
    then have "mset p = mset [0..<length xs]" by (metis mset_sort)
    then have "mset (map (\<lambda>i. xs ! i) p) = mset (map (\<lambda>i. xs ! i) [0..<length xs])"
      by (simp only: mset_map)
    then show ?thesis using True by (simp add: engine_sort_def p_def map_nth)
  next
    case False
    then show ?thesis by (simp add: engine_sort_def p_def)
  qed
qed

lemma mset_js_sort: "mset (js_sort h f xs) = mset xs"
  by (simp add: js_sort_def mset_engine_sort mset_stable_sort)

lemma length_js_sort: "length (js_sort h f xs) = length xs"
  using mset_js_sort[of h f xs] by (metis size_mset)

lemma set_js_sort: "set (js_sort h f xs) = set xs"
  using mset_js_sort[of h f xs] by (metis set_mset_mset)

lemma js_sort_Nil: "js_sort h f [] = []"
  using length_js_sort[of h f "[]"] by simp

lemma js_sort_single: "js_sort h f [x] = [x]"
proof -
  have "mset (js_sort h f [x]) = {#x#}" by (simp add: mset_js_sort)
  then show ?thesis by (cases "js_sort h f [x]") (auto split: if_splits)
qed

lemma dateCompare_consistent:
  assumes "\<forall>r\<in>set xs. record_time h r \<noteq> None"
  shows "consistent_comparator (dateCompare h) xs"
proof -
  have diff: "sort_compare (dateCompare h) a b = the (record_time h a) - the (record_time h b)"
    if "a \<in> set xs" "b \<in> set xs" for a b
    using that assms by (auto simp: dateCompare_valid)
  show ?thesis
    unfolding consistent_comparator_def by (simp add: diff)
qed

lemma js_sort_consistent:
  "consistent_comparator f xs \<Longrightarrow> js_sort h f xs = stable_sort f xs"
  by (simp add: js_sort_def)

lemma not_consistent:
  assumes "a \<in> set xs" "b \<in> set xs" "c \<in> set xs"
    and "sort_compare f a b = 0" "sort_compare f b c = 0" "sort_compare f a c \<noteq> 0"
  shows "\<not> consistent_comparator f xs"
  using assms unfolding consistent_comparator_def by blast

section \<open>Properties of the date rendering\<close>

lemma div_step:
  fixes a n :: int
  assumes "0 < n"
  shows "(a + 1) div n = a div n + (if n dvd a + 1 then 1 else 0)"
proof (cases "n dvd a + 1")
  case True
  then obtain k where k: "a + 1 = n * k" by (auto simp: dvd_def)
  have "(n * k) div n = k" using assms by simp
  then have q: "(a + 1) div n = k" unfolding k .
  have "n * (k - 1) = n * k - n" by (simp add: right_diff_distrib)
  then have "a = n * (k - 1) + (n - 1)" using k by linarith
  then have "a div n = k - 1"
    by (rule int_div_pos_eq) (use assms in simp_all)
  then show ?thesis unfolding q using True by simp
next
  case False
  define r where "r = a mod n"
  have r: "0 \<le> r" "r < n" using assms by (simp_all add: r_def)
  have a: "n * (a div n) + r = a" unfolding r_def by (rule mult_div_mod_eq)
  have e: "a + 1 = n * (a div n) + (r + 1)" using a by linarith
  have "r + 1 \<noteq> n"
  proof
    assume n: "r + 1 = n"
    have "n * (a div n + 1) = n * (a div n) + n" by (simp add: distrib_left)
    then have "a + 1 = n * (a div n + 1)" using e n by linarith
    then have "n dvd a + 1" by (metis dvd_triv_left)
    then show False using False by simp
  qed
  then have lt: "r + 1 < n" using r by linarith
  have "(a + 1) div n = a div n"
    using e by (rule int_div_pos_eq) (use r lt in simp_all)
  then show ?thesis using False by simp
qed

lemma div_step_numeral:
  fixes y :: int
  assumes "0 < n" and "n dvd k - 1"
  shows "(y + 1 - k) div n = (y - k) div n + (if n dvd y then 1 else 0)"
proof -
  have e: "y + 1 - k = (y - k) + 1" by simp
  have e2: "y - k + 1 = y - (k - 1)" by simp
  have dv: "(n dvd (y - k) + 1) = (n dvd y)"
    unfolding e2 using assms(2) by (rule dvd_diff_left_iff)
  show ?thesis
    unfolding e div_step[OF assms(1), of "y - k"] dv by (rule refl)
qed

lemma leap_year_dvd: "leap_year y \<longleftrightarrow> 4 dvd y \<and> (\<not> 100 dvd y \<or> 400 dvd y)"
  by (simp add: leap_year_def dvd_eq_mod_eq_0)

lemma day_from_year_step: "day_from_year (y + 1) = day_from_year y + days_in_year y"
proof -
  define a where "a = (y - 1969) div 4"
  define b where "b = (y - 1901) div 100"
  define c where "c = (y - 1601) div 400"
  have d4: "(y + 1 - 1969) div 4 = a + (if 4 dvd y then 1 else 0)"
    unfolding a_def by (rule div_step_numeral) simp_all
  have d100: "(y + 1 - 1901) div 100 = b + (if 100 dvd y then 1 else 0)"
    unfolding b_def by (rule div_step_numeral) simp_all
  have d400: "(y + 1 - 1601) div 400 = c + (if 400 dvd y then 1 else 0)"
    unfolding c_def by (rule div_step_numeral) simp_all
  have c100: "100 dvd y" if "400 dvd y"
    using dvd_trans[of 100 400 y] that by simp
  have c4: "4 dvd y" if "100 dvd y"
    using dvd_trans[of 4 100 y] that by simp
  have l: "day_from_year (y + 1) = 365 * (y + 1 - 1970) + (a + (if 4 dvd y then 1 else 0))
      - (b + (if 100 dvd y then 1 else 0)) + (c + (if 400 dvd y then 1 else 0))"
    unfolding day_from_year_def d4 d100 d400 by (rule refl)
  have r: "day_from_year y = 365 * (y - 1970) + a - b + c"
    unfolding day_from_year_def a_def b_def c_def by (rule refl)
  show ?thesis
    unfolding l r days_in_year_def leap_year_dvd
    using c100 c4 by (cases "4 dvd y"; cases "100 dvd y"; cases "400 dvd y") simp_all
qed

lemma day_from_year_cycle: "day_from_year (400 * e) = 146097 * e - 719528"
proof -
  have a: "(400 * e - 1969) div 4 = 100 * e - 493"
    by (rule int_div_pos_eq[where r = 3]) simp_all
  have b: "(400 * e - 1901) div 100 = 4 * e - 20"
    by (rule int_div_pos_eq[where r = 99]) simp_all
  have c: "(400 * e - 1601) div 400 = e - 5"
    by (rule int_div_pos_eq[where r = 399]) simp_all
  show ?thesis unfolding day_from_year_def a b c by simp
qed

lemma year_from_correct:
  "year_from y0 r0 = (y, r) \<Longrightarrow> 0 \<le> r0
   \<Longrightarrow> 0 \<le> r \<and> r < days_in_year y \<and> day_from_year y + r = day_from_year y0 + r0"
proof (induction y0 r0 rule: year_from.induct)
  case (1 y0 r0)
  show ?case
  proof (cases "days_in_year y0 \<le> r0")
    case True
    then have rec: "year_from (y0 + 1) (r0 - days_in_year y0) = (y, r)"
      using "1.prems"(1) by (simp add: year_from.simps[of y0 r0])
    have "0 \<le> r0 - days_in_year y0" using True by simp
    from "1.IH"[OF True rec this] show ?thesis
      by (simp add: day_from_year_step)
  next
    case False
    then have "y = y0" "r = r0"
      using "1.prems"(1) by (simp_all add: year_from.simps[of y0 r0])
    then show ?thesis using False "1.prems"(2) by simp
  qed
qed

lemma month_from_correct:
  "month_from ls m r = (m', r') \<Longrightarrow> 0 \<le> r \<Longrightarrow> r < sum_list ls
   \<Longrightarrow> \<exists>k<length ls. m' = m + int k \<and> 0 \<le> r' \<and> r' < ls ! k \<and> r = sum_list (take k ls) + r'"
proof (induction ls arbitrary: m r)
  case Nil
  then show ?case by simp
next
  case (Cons l ls)
  show ?case
  proof (cases "l \<le> r")
    case True
    then have rec: "month_from ls (m + 1) (r - l) = (m', r')"
      using Cons.prems(1) by simp
    have "0 \<le> r - l" "r - l < sum_list ls"
      using True Cons.prems(3) by simp_all
    from Cons.IH[OF rec this] obtain k where k: "k < length ls" "m' = m + 1 + int k"
      "0 \<le> r'" "r' < ls ! k" "r - l = sum_list (take k ls) + r'"
      by blast
    then have "Suc k < length (l # ls) \<and> m' = m + int (Suc k) \<and> 0 \<le> r'
        \<and> r' < (l # ls) ! Suc k \<and> r = sum_list (take (Suc k) (l # ls)) + r'"
      by simp
    then show ?thesis by blast
  next
    case False
    then have "m' = m" "r' = r" using Cons.prems(1) by simp_all
    then have "0 < length (l # ls) \<and> m' = m + int 0 \<and> 0 \<le> r'
        \<and> r' < (l # ls) ! 0 \<and> r = sum_list (take 0 (l # ls)) + r'"
      using False Cons.prems(2) by simp
    then show ?thesis by blast
  qed
qed

lemma sum_month_lengths: "sum_list (month_lengths y) = days_in_year y"
  by (simp add: month_lengths_def days_in_year_def)

lemma length_month_lengths: "length (month_lengths y) = 12"
  by (simp add: month_lengths_def)

lemma month_lengths_le_31: "k < 12 \<Longrightarrow> month_lengths y ! k \<le> 31"
proof -
  assume "k < 12"
  then have "month_lengths y ! k \<in> set (month_lengths y)"
    by (simp add: length_month_lengths)
  then show ?thesis by (auto simp: month_lengths_def split: if_splits)
qed

text \<open>
  The year, month and day that are rendered are the calendar date of the day: a month
  from 1 to 12, a day of that month, and the date whose day number is the given one.
\<close>

lemma civil_from_days_correct:
  assumes "civil_from_days day = (y, m, d)"
  shows "1 \<le> m \<and> m \<le> 12 \<and> 1 \<le> d \<and> d \<le> days_in_month y m \<and> d \<le> 31
    \<and> days_from_civil y m d = day"
proof -
  define z where "z = day + 719528"
  obtain y' r where yr: "year_from (400 * (z div 146097)) (z mod 146097) = (y', r)"
    by (cases "year_from (400 * (z div 146097)) (z mod 146097)")
  obtain m' d' where md: "month_from (month_lengths y') 1 r = (m', d')"
    by (cases "month_from (month_lengths y') 1 r")
  have res: "y = y'" "m = m'" "d = d' + 1"
    using assms yr md by (simp_all add: civil_from_days_def z_def Let_def)
  have "0 \<le> z mod 146097" by simp
  from year_from_correct[OF yr this]
  have r: "0 \<le> r" "r < days_in_year y'"
    and sum: "day_from_year y' + r = day_from_year (400 * (z div 146097)) + z mod 146097"
    by simp_all
  have "day_from_year (400 * (z div 146097)) + z mod 146097 = z - 719528"
    by (simp add: day_from_year_cycle)
  then have day: "day_from_year y' + r = day"
    using sum by (simp add: z_def)
  have "r < sum_list (month_lengths y')" using r by (simp add: sum_month_lengths)
  from month_from_correct[OF md r(1) this] obtain k where k: "k < 12" "m' = 1 + int k"
    "0 \<le> d'" "d' < month_lengths y' ! k" "r = sum_list (take k (month_lengths y')) + d'"
    by (auto simp: length_month_lengths)
  have nat: "nat (m' - 1) = k" using k(2) by simp
  have "d' < 31" using k(4) month_lengths_le_31[OF k(1), of y'] by simp
  then show ?thesis
    using k day by (simp add: res days_in_month_def days_from_civil_def nat)
qed

subsection \<open>Decimal digits\<close>

lemma digit_char:
  assumes "d < 10"
  shows "is_digit (char_of (48 + d))" and "digit_val (char_of (48 + d)) = int d"
proof -
  have "(48 + d) mod 256 = 48 + d" using assms by simp
  then have "of_char (char_of (48 + d)) = 48 + d" by simp
  then show "is_digit (char_of (48 + d))" and "digit_val (char_of (48 + d)) = int d"
    using assms by (simp_all add: is_digit_def digit_val_def)
qed

lemma show_nat_small: "n < 10 \<Longrightarrow> show_nat n = [char_of (48 + n)]"
  by (simp add: show_nat.simps[of n])

lemma show_nat_large:
  "\<not> n < 10 \<Longrightarrow> show_nat n = show_nat (n div 10) @ [char_of (48 + n mod 10)]"
  by (simp add: show_nat.simps[of n])

lemma show_nat_digits: "list_all is_digit (show_nat n)"
proof (induction n rule: show_nat.induct)
  case (1 n)
  show ?case
  proof (cases "n < 10")
    case True
    then show ?thesis by (simp add: show_nat_small digit_char)
  next
    case False
    then show ?thesis using "1.IH" by (simp add: show_nat_large digit_char)
  qed
qed

lemma decimal_show_nat: "decimal (show_nat n) = int n"
proof (induction n rule: show_nat.induct)
  case (1 n)
  show ?case
  proof (cases "n < 10")
    case True
    then show ?thesis by (simp add: show_nat_small decimal_def digit_char)
  next
    case False
    then have "decimal (show_nat n) = 10 * int (n div 10) + int (n mod 10)"
      using "1.IH" by (simp add: show_nat_large decimal_snoc digit_char)
    then show ?thesis by (simp add: zdiv_int zmod_int)
  qed
qed

lemma length_show_nat: "n < 10 ^ k \<Longrightarrow> 0 < k \<Longrightarrow> length (show_nat n) \<le> k"
proof (induction n arbitrary: k rule: show_nat.induct)
  case (1 n)
  show ?case
  proof (cases "n < 10")
    case True
    then show ?thesis using "1.prems" by (simp add: show_nat_small)
  next
    case False
    obtain j where j: "k = Suc j" using "1.prems"(2) by (cases k) auto
    have "j \<noteq> 0" using False "1.prems"(1) j by (cases j) auto
    moreover have "n div 10 < 10 ^ j" using "1.prems"(1) j by (simp add: less_mult_imp_div_less)
    ultimately have "length (show_nat (n div 10)) \<le> j"
      using "1.IH"[OF False] by simp
    then show ?thesis using j by (simp add: show_nat_large[OF False])
  qed
qed

lemma show_nat_not_Nil: "show_nat n \<noteq> []"
  by (cases "n < 10") (simp_all add: show_nat_small show_nat_large)

lemma decimal_zeros: "decimal (replicate k (CHR ''0'') @ s) = decimal s"
proof (induction k)
  case 0
  then show ?case by simp
next
  case (Suc k)
  have "digit_val (CHR ''0'') = 0" by (simp add: digit_val_def)
  then have "decimal (CHR ''0'' # replicate k (CHR ''0'') @ s) = decimal (replicate k (CHR ''0'') @ s)"
    by (simp add: decimal_def)
  then show ?case using Suc by simp
qed

lemma pad_left_props:
  assumes "list_all is_digit s" and "length s \<le> w"
  shows "length (pad_left w s) = w" and "list_all is_digit (pad_left w s)"
    and "decimal (pad_left w s) = decimal s"
proof -
  have zero: "is_digit (CHR ''0'')" by (simp add: is_digit_def)
  show "length (pad_left w s) = w" using assms(2) by (simp add: pad_left_def)
  show "list_all is_digit (pad_left w s)"
    using assms(1) zero by (auto simp: pad_left_def list_all_iff)
  show "decimal (pad_left w s) = decimal s" by (simp add: pad_left_def decimal_zeros)
qed

lemma two_digits:
  assumes "0 \<le> n" and "n \<le> 31"
  shows "length (pad_left 2 (show_nat (nat n))) = 2"
    and "list_all is_digit (pad_left 2 (show_nat (nat n)))"
    and "decimal (pad_left 2 (show_nat (nat n))) = n"
proof -
  have "nat n < 10 ^ 2" using assms by simp
  then have len: "length (show_nat (nat n)) \<le> 2" by (rule length_show_nat) simp
  show "length (pad_left 2 (show_nat (nat n))) = 2"
    and "list_all is_digit (pad_left 2 (show_nat (nat n)))"
    and "decimal (pad_left 2 (show_nat (nat n))) = n"
    using pad_left_props[OF show_nat_digits len] assms(1) by (simp_all add: decimal_show_nat)
qed

lemma four_digits:
  assumes "0 \<le> n" and "n \<le> 9999"
  shows "length (pad_left 4 (show_nat (nat n))) = 4"
    and "list_all is_digit (pad_left 4 (show_nat (nat n)))"
    and "decimal (pad_left 4 (show_nat (nat n))) = n"
proof -
  have "nat n < 10 ^ 4" using assms by simp
  then have len: "length (show_nat (nat n)) \<le> 4" by (rule length_show_nat) simp
  show "length (pad_left 4 (show_nat (nat n))) = 4"
    and "list_all is_digit (pad_left 4 (show_nat (nat n)))"
    and "decimal (pad_left 4 (show_nat (nat n))) = n"
    using pad_left_props[OF show_nat_digits len] assms(1) by (simp_all add: decimal_show_nat)
qed

lemma yyyy_mm_dd_parts:
  assumes "length ys = 4" "length ms = 2" "length ds = 2"
  shows "take 4 (ys @ ''-'' @ ms @ ''-'' @ ds) = ys"
    and "take 2 (drop 5 (ys @ ''-'' @ ms @ ''-'' @ ds)) = ms"
    and "drop 8 (ys @ ''-'' @ ms @ ''-'' @ ds) = ds"
    and "(ys @ ''-'' @ ms @ ''-'' @ ds) ! 4 = CHR ''-''"
    and "(ys @ ''-'' @ ms @ ''-'' @ ds) ! 7 = CHR ''-''"
    and "length (ys @ ''-'' @ ms @ ''-'' @ ds) = 10"
  using assms by (simp_all add: nth_append)

lemma iso_date_civil:
  assumes "civil_from_days (t div 86400000) = (y, m, d)"
  shows "iso_date t =
     (if 0 \<le> y \<and> y \<le> 9999 then pad_left 4 (show_nat (nat y))
      else (if y < 0 then ''-'' else ''+'') @ pad_left 6 (show_nat (nat \<bar>y\<bar>)))
     @ ''-'' @ pad_left 2 (show_nat (nat m)) @ ''-'' @ pad_left 2 (show_nat (nat d))"
  using assms by (simp add: iso_date_def Let_def)

text \<open>
  The rendered date has the form \<open>YYYY-MM-DD\<close> exactly when the year is from 0 to
  9999, and then its three numbers are the year, the month and the day.
\<close>

lemma iso_date_form:
  assumes c: "civil_from_days (t div 86400000) = (y, m, d)"
  shows "is_yyyy_mm_dd (iso_date t) \<longleftrightarrow> 0 \<le> y \<and> y \<le> 9999"
    and "0 \<le> y \<and> y \<le> 9999 \<Longrightarrow> decimal (take 4 (iso_date t)) = y
      \<and> decimal (take 2 (drop 5 (iso_date t))) = m \<and> decimal (drop 8 (iso_date t)) = d"
proof -
  have md: "0 \<le> m" "m \<le> 31" "0 \<le> d" "d \<le> 31"
    using civil_from_days_correct[OF c] by simp_all
  note M = two_digits[OF md(1,2)]
  note D = two_digits[OF md(3,4)]
  show form: "is_yyyy_mm_dd (iso_date t) \<longleftrightarrow> 0 \<le> y \<and> y \<le> 9999"
  proof (cases "0 \<le> y \<and> y \<le> 9999")
    case True
    then have y: "0 \<le> y" "y \<le> 9999" by simp_all
    note Y = four_digits[OF y]
    have "iso_date t = pad_left 4 (show_nat (nat y)) @ ''-'' @ pad_left 2 (show_nat (nat m))
        @ ''-'' @ pad_left 2 (show_nat (nat d))"
      using True by (simp add: iso_date_civil[OF c])
    then show ?thesis
      using True yyyy_mm_dd_parts[OF Y(1) M(1) D(1)] Y(2) M(2) D(2)
      by (simp add: is_yyyy_mm_dd_def)
  next
    case False
    then have "hd (iso_date t) = CHR ''-'' \<or> hd (iso_date t) = CHR ''+''"
      by (simp add: iso_date_civil[OF c])
    then have "\<not> is_digit (hd (iso_date t))" by (auto simp: is_digit_def)
    moreover have "is_yyyy_mm_dd s \<Longrightarrow> is_digit (hd s)" for s
      by (cases s) (auto simp: is_yyyy_mm_dd_def)
    ultimately show ?thesis using False by blast
  qed
  show "decimal (take 4 (iso_date t)) = y
      \<and> decimal (take 2 (drop 5 (iso_date t))) = m \<and> decimal (drop 8 (iso_date t)) = d"
    if "0 \<le> y \<and> y \<le> 9999"
  proof -
    have y: "0 \<le> y" "y \<le> 9999" using that by simp_all
    note Y = four_digits[OF y]
    have "iso_date t = pad_left 4 (show_nat (nat y)) @ ''-'' @ pad_left 2 (show_nat (nat m))
        @ ''-'' @ pad_left 2 (show_nat (nat d))"
      using that by (simp add: iso_date_civil[OF c])
    then show ?thesis
      using yyyy_mm_dd_parts[OF Y(1) M(1) D(1)] Y(3) M(3) D(3) by simp
  qed
qed

lemma six_digits:
  assumes "0 \<le> n" and "n \<le> 999999"
  shows "length (pad_left 6 (show_nat (nat n))) = 6"
    and "list_all is_digit (pad_left 6 (show_nat (nat n)))"
    and "decimal (pad_left 6 (show_nat (nat n))) = n"
proof -
  have "nat n < 10 ^ 6" using assms by simp
  then have len: "length (show_nat (nat n)) \<le> 6" by (rule length_show_nat) simp
  show "length (pad_left 6 (show_nat (nat n))) = 6"
    and "list_all is_digit (pad_left 6 (show_nat (nat n)))"
    and "decimal (pad_left 6 (show_nat (nat n))) = n"
    using pad_left_props[OF show_nat_digits len] assms(1) by (simp_all add: decimal_show_nat)
qed

lemma expanded_parts:
  assumes "length ys = 6" "length ms = 2" "length ds = 2"
  shows "take 6 (drop 1 (c # ys @ ''-'' @ ms @ ''-'' @ ds)) = ys"
    and "take 2 (drop 8 (c # ys @ ''-'' @ ms @ ''-'' @ ds)) = ms"
    and "drop 11 (c # ys @ ''-'' @ ms @ ''-'' @ ds) = ds"
    and "(c # ys @ ''-'' @ ms @ ''-'' @ ds) ! 7 = CHR ''-''"
    and "(c # ys @ ''-'' @ ms @ ''-'' @ ds) ! 10 = CHR ''-''"
    and "length (c # ys @ ''-'' @ ms @ ''-'' @ ds) = 13"
  using assms by (simp_all add: nth_append nth_Cons')

text \<open>
  Outside the years 0 to 9999 the rendered date has the expanded form: the sign of the
  year, six digits that read its magnitude, and the month and the day.
\<close>

lemma iso_date_expanded:
  assumes c: "civil_from_days (t div 86400000) = (y, m, d)"
    and out: "\<not> (0 \<le> y \<and> y \<le> 9999)" and six: "\<bar>y\<bar> \<le> 999999"
  shows "is_expanded_date (iso_date t)"
    and "hd (iso_date t) = (if y < 0 then CHR ''-'' else CHR ''+'')"
    and "decimal (take 6 (drop 1 (iso_date t))) = \<bar>y\<bar>"
    and "decimal (take 2 (drop 8 (iso_date t))) = m"
    and "decimal (drop 11 (iso_date t)) = d"
proof -
  have md: "0 \<le> m" "m \<le> 31" "0 \<le> d" "d \<le> 31"
    using civil_from_days_correct[OF c] by simp_all
  note M = two_digits[OF md(1,2)]
  note D = two_digits[OF md(3,4)]
  have "0 \<le> \<bar>y\<bar>" by simp
  note Y = six_digits[OF this six]
  define sign where "sign = (if y < 0 then CHR ''-'' else CHR ''+'')"
  have iso: "iso_date t = sign # pad_left 6 (show_nat (nat \<bar>y\<bar>)) @ ''-''
      @ pad_left 2 (show_nat (nat m)) @ ''-'' @ pad_left 2 (show_nat (nat d))"
    using out by (simp add: iso_date_civil[OF c] sign_def)
  note P = expanded_parts[OF Y(1) M(1) D(1), of sign]
  have s: "sign = CHR ''+'' \<or> sign = CHR ''-''" by (simp add: sign_def)
  show "is_expanded_date (iso_date t)"
    unfolding is_expanded_date_def iso P using s Y(2) M(2) D(2) by simp
  show "hd (iso_date t) = (if y < 0 then CHR ''-'' else CHR ''+'')"
    by (simp add: iso sign_def)
  show "decimal (take 6 (drop 1 (iso_date t))) = \<bar>y\<bar>"
    unfolding iso P by (rule Y(3))
  show "decimal (take 2 (drop 8 (iso_date t))) = m"
    unfolding iso P by (rule M(3))
  show "decimal (drop 11 (iso_date t)) = d"
    unfolding iso P by (rule D(3))
qed

subsection \<open>Example dates\<close>

lemma civil_15_jan_2024: "civil_from_days 19737 = (2024, 1, 15)"
  by code_simp

lemma civil_year_10000: "civil_from_days 2932897 = (10000, 1, 1)"
  by code_simp

lemma civil_year_45306: "civil_from_days 15828149 = (45306, 1, 1)"
  by code_simp

lemma char_of_digit:
  "char_of (48::nat) = CHR ''0''" "char_of (49::nat) = CHR ''1''" "char_of (50::nat) = CHR ''2''"
  "char_of (51::nat) = CHR ''3''" "char_of (52::nat) = CHR ''4''" "char_of (53::nat) = CHR ''5''"
  "char_of (54::nat) = CHR ''6''" "char_of (55::nat) = CHR ''7''" "char_of (56::nat) = CHR ''8''"
  "char_of (57::nat) = CHR ''9''"
  by code_simp+

lemma show_nat_examples:
  "show_nat 10000 = ''10000''" "show_nat 45306 = ''45306''" "show_nat (Suc 0) = ''1''"
  by (simp_all add: show_nat.simps char_of_digit)

lemma pad_left_examples:
  "pad_left 6 ''10000'' = ''010000''" "pad_left 6 ''45306'' = ''045306''"
  "pad_left 2 ''1'' = ''01''"
  by (simp_all add: pad_left_def eval_nat_numeral)

lemma iso_date_year_10000: "iso_date 253402300800000 = ''+010000-01-01''"
proof -
  have "civil_from_days (253402300800000 div 86400000) = (10000, 1, 1)"
    by (simp add: civil_year_10000)
  from iso_date_civil[OF this] show ?thesis
    by (simp add: show_nat_examples pad_left_examples)
qed

lemma iso_date_year_45306: "iso_date 1367552073600000 = ''+045306-01-01''"
proof -
  have "civil_from_days (1367552073600000 div 86400000) = (45306, 1, 1)"
    by (simp add: civil_year_45306)
  from iso_date_civil[OF this] show ?thesis
    by (simp add: show_nat_examples pad_left_examples)
qed

lemma not_yyyy_mm_dd_sign: "\<not> is_yyyy_mm_dd (CHR ''+'' # s)"
  by (simp add: is_yyyy_mm_dd_def is_digit_def)

text \<open>
  C7. The claim is that \<open>formatDate\<close> gives every argument that is neither falsy nor a
  string with a dash either the date as \<open>YYYY-MM-DD\<close> or, when the date is invalid, the
  argument. From the year 10000 on, and before the year 0, \<open>toISOString\<close> writes the
  year with a sign and six digits: the time value 253402300800000 gives
  \<open>+010000-01-01\<close>, and the cell text \<open>45306\<close> gives \<open>+045306-01-01\<close> under V8.
\<close>

theorem expanded_year_counterexample:
  "truthy (JNum (Fin 253402300800000)) \<and> \<not> dash_string (JNum (Fin 253402300800000))
   \<and> newDate example_host (JNum (Fin 253402300800000)) = Some 253402300800000
   \<and> formatDate example_host (JNum (Fin 253402300800000)) = JStr ''+010000-01-01''
   \<and> \<not> is_yyyy_mm_dd ''+010000-01-01''
   \<and> truthy (JStr ''45306'') \<and> \<not> dash_string (JStr ''45306'')
   \<and> newDate example_host (JStr ''45306'') = Some 1367552073600000
   \<and> formatDate example_host (JStr ''45306'') = JStr ''+045306-01-01''
   \<and> \<not> is_yyyy_mm_dd ''+045306-01-01''"
  by (simp add: formatDate_def newDate_def time_clip_def dash_string_def example_host_def
      iso_date_year_10000 iso_date_year_45306 not_yyyy_mm_dd_sign)

text \<open>
  C7, amended. \<open>formatDate\<close> gives the empty string for a falsy argument and gives a
  string that contains a dash back as it is. For every other argument it gives the
  argument itself when \<open>new Date(argument)\<close> is invalid, and otherwise the UTC calendar
  date of that time value: the month is from 1 to 12, the day is a day of that month,
  and the date is the one of the day number of the time value. The text has the form
  \<open>YYYY-MM-DD\<close> exactly when the year is from 0 to 9999, and then its digits read the
  year, the month and the day; for another year of at most six digits it is the sign,
  six digits of the year, and the month and the day.
\<close>

theorem formatDate_rendering:
  "(\<not> truthy u \<longrightarrow> formatDate h u = JStr '''')
   \<and> (CHR ''-'' \<in> set s \<longrightarrow> formatDate h (JStr s) = JStr s)
   \<and> (truthy w \<longrightarrow> \<not> dash_string w \<longrightarrow> newDate h w = None \<longrightarrow> formatDate h w = w)
   \<and> (truthy v \<longrightarrow> \<not> dash_string v \<longrightarrow> newDate h v = Some t
        \<longrightarrow> civil_from_days (t div 86400000) = (y, m, d)
        \<longrightarrow> formatDate h v = JStr (iso_date t)
          \<and> 1 \<le> m \<and> m \<le> 12 \<and> 1 \<le> d \<and> d \<le> days_in_month y m
          \<and> days_from_civil y m d = t div 86400000
          \<and> (is_yyyy_mm_dd (iso_date t) \<longleftrightarrow> 0 \<le> y \<and> y \<le> 9999)
          \<and> (0 \<le> y \<and> y \<le> 9999
              \<longrightarrow> decimal (take 4 (iso_date t)) = y
                \<and> decimal (take 2 (drop 5 (iso_date t))) = m
                \<and> decimal (drop 8 (iso_date t)) = d)
          \<and> (\<not> (0 \<le> y \<and> y \<le> 9999) \<longrightarrow> \<bar>y\<bar> \<le> 999999
              \<longrightarrow> is_expanded_date (iso_date t)
                \<and> hd (iso_date t) = (if y < 0 then CHR ''-'' else CHR ''+'')
                \<and> decimal (take 6 (drop 1 (iso_date t))) = \<bar>y\<bar>
                \<and> decimal (take 2 (drop 8 (iso_date t))) = m
                \<and> decimal (drop 11 (iso_date t)) = d))"
proof (intro conjI impI)
  assume "\<not> truthy u"
  then show "formatDate h u = JStr ''''" by (simp add: formatDate_def)
next
  assume "CHR ''-'' \<in> set s"
  then show "formatDate h (JStr s) = JStr s" by (auto simp: formatDate_def)
next
  assume "truthy w" "\<not> dash_string w" "newDate h w = None"
  then show "formatDate h w = w" by (simp add: formatDate_def dash_string_def)
next
  assume v: "truthy v" "\<not> dash_string v" "newDate h v = Some t"
    and c: "civil_from_days (t div 86400000) = (y, m, d)"
  show "formatDate h v = JStr (iso_date t)"
    using v by (simp add: formatDate_def dash_string_def)
  show "1 \<le> m" "m \<le> 12" "1 \<le> d" "d \<le> days_in_month y m"
    "days_from_civil y m d = t div 86400000"
    using civil_from_days_correct[OF c] by simp_all
  show "is_yyyy_mm_dd (iso_date t) \<longleftrightarrow> 0 \<le> y \<and> y \<le> 9999"
    by (rule iso_date_form(1)[OF c])
  {
    assume "0 \<le> y \<and> y \<le> 9999"
    from iso_date_form(2)[OF c this]
    show "decimal (take 4 (iso_date t)) = y" "decimal (take 2 (drop 5 (iso_date t))) = m"
      "decimal (drop 8 (iso_date t)) = d"
      by simp_all
  }
  {
    assume out: "\<not> (0 \<le> y \<and> y \<le> 9999)" and six: "\<bar>y\<bar> \<le> 999999"
    show "is_expanded_date (iso_date t)"
      "hd (iso_date t) = (if y < 0 then CHR ''-'' else CHR ''+'')"
      "decimal (take 6 (drop 1 (iso_date t))) = \<bar>y\<bar>"
      "decimal (take 2 (drop 8 (iso_date t))) = m"
      "decimal (drop 11 (iso_date t)) = d"
      by (rule iso_date_expanded[OF c out six])+
  }
qed

theorem formatDate_rendering_witness:
  "formatDate example_host JUndefined = JStr ''''
   \<and> formatDate example_host (JStr ''2024-01-15'') = JStr ''2024-01-15''
   \<and> formatDate example_host (JStr ''to be announced'') = JStr ''to be announced''
   \<and> formatDate example_host (JNum (Fin 1705276800000)) = JStr (iso_date 1705276800000)
   \<and> days_from_civil 2024 1 15 = 19737
   \<and> is_yyyy_mm_dd (iso_date 1705276800000)
   \<and> decimal (take 4 (iso_date 1705276800000)) = 2024
   \<and> decimal (take 2 (drop 5 (iso_date 1705276800000))) = 1
   \<and> decimal (drop 8 (iso_date 1705276800000)) = 15
   \<and> formatDate example_host (JStr ''45306'') = JStr (iso_date 1367552073600000)
   \<and> days_from_civil 45306 1 1 = 15828149
   \<and> \<not> is_yyyy_mm_dd (iso_date 1367552073600000)
   \<and> is_expanded_date (iso_date 1367552073600000)
   \<and> hd (iso_date 1367552073600000) = CHR ''+''
   \<and> decimal (take 6 (drop 1 (iso_date 1367552073600000))) = 45306
   \<and> decimal (take 2 (drop 8 (iso_date 1367552073600000))) = 1
   \<and> decimal (drop 11 (iso_date 1367552073600000)) = 1"
  using formatDate_rendering [where h = example_host and u = JUndefined
      and s = "''2024-01-15''" and w = "JStr ''to be announced''"
      and v = "JNum (Fin 1705276800000)" and t = 1705276800000
      and y = 2024 and m = 1 and d = 15]
    formatDate_rendering [where h = example_host and u = JUndefined
      and s = "''2024-01-15''" and w = "JStr ''to be announced''"
      and v = "JStr ''45306''" and t = 1367552073600000
      and y = 45306 and m = 1 and d = 1]
  by (simp add: newDate_def time_clip_def dash_string_def example_host_def
      civil_15_jan_2024 civil_year_45306)

section \<open>Properties of the upload\<close>

lemma show_nat_0: "show_nat 0 = ''0''"
  by code_simp

lemma data_setDebugInfo: "data (setDebugInfo updater st) = data st"
  by (simp add: setDebugInfo_def split: sum.splits)

lemma error_setDebugInfo: "error (setDebugInfo updater st) = error st"
  by (simp add: setDebugInfo_def split: sum.splits)

lemma processData_fst: "fst (processData h rows st) = None"
  by (simp add: processData_def Let_def)

lemma processData_data:
  "data (snd (processData h rows st)) = js_sort h (dateCompare h) (map (processRow h) rows)"
  by (simp add: processData_def Let_def)

lemma processData_error: "error (snd (processData h rows st)) = error st"
  by (simp add: processData_def Let_def error_setDebugInfo)

lemma processData_empty:
  "data (snd (processData h [] st)) = []"
  "render_error (snd (processData h [] st)) = Some (Thrown (undefined_read_message h ''Date''))"
  by (simp_all add: processData_def Let_def js_sort_Nil setDebugInfo_def)

lemma processData_selectedRegion:
  "fst (processData h rows (st\<lparr>selectedRegion := r\<rparr>)) = fst (processData h rows st)
   \<and> data (snd (processData h rows (st\<lparr>selectedRegion := r\<rparr>))) = data (snd (processData h rows st))"
  by (simp add: processData_fst processData_data)

lemma handleFileUpload_Rows:
  "handleFileUpload h (Some (name, Rows sheet rows)) st =
     (snd (processData h rows
        (st\<lparr>isLoading := True,
            debugInfo := ''File selected: '' @ name @ [CHR 0x0A] @ ''Sheet name: '' @ sheet\<rparr>)))
     \<lparr>isLoading := False\<rparr>"
proof -
  obtain t s where p: "processData h rows
        (st\<lparr>isLoading := True,
            debugInfo := ''File selected: '' @ name @ [CHR 0x0A] @ ''Sheet name: '' @ sheet\<rparr>) = (t, s)"
    by (cases "processData h rows
        (st\<lparr>isLoading := True,
            debugInfo := ''File selected: '' @ name @ [CHR 0x0A] @ ''Sheet name: '' @ sheet\<rparr>)")
  then have "t = None" using processData_fst by (metis fst_conv)
  then show ?thesis
    using p by (simp add: handleFileUpload_def readExcelFile_def Let_def)
qed

text \<open>
  C1. The claim is that an empty batch gives an empty series and a summary with empty
  date bounds, with no crash and no error. The code does set the empty series, but the
  updater of the summary reads \<open>firstRow.Date\<close> with \<open>firstRow\<close> undefined: it throws
  a TypeError when React runs it, outside the \<open>try\<close> of \<open>handleFileUpload\<close>, so no
  error message is set and the render fails. In the shorter component the read is in the
  handler itself: the \<open>catch\<close> shows the error and the series is the one from before.
\<close>

theorem empty_batch_crashes:
  "fst (processData h [] st) = None
   \<and> data (snd (processData h [] st)) = []
   \<and> render_error (snd (processData h [] st)) = Some (Thrown (undefined_read_message h ''Date''))
   \<and> data (handleFileUpload h (Some (name, Rows sheet [])) st) = []
   \<and> render_error (handleFileUpload h (Some (name, Rows sheet [])) st)
       = Some (Thrown (undefined_read_message h ''Date''))
   \<and> error (handleFileUpload h (Some (name, Rows sheet [])) st) = error st
   \<and> data (handleFileUpload_MD h (Some (name, Rows sheet [])) st) = data st
   \<and> error (handleFileUpload_MD h (Some (name, Rows sheet [])) st)
       = ''Error reading Excel file: '' @ undefined_read_message h ''Date''
   \<and> render_error (handleFileUpload_MD h (Some (name, Rows sheet [])) st) = render_error st"
  by (simp add: processData_fst processData_empty processData_error handleFileUpload_Rows
      handleFileUpload_MD_def catch_MD_def Let_def)

text \<open>
  C6. When decoding fails (\<open>XLSX.read\<close> or \<open>sheet_to_json\<close> throws), the series in the
  state is the one from before, the error message is set, and the diagnostic text ends
  with the error; in both components.
\<close>

theorem decode_failure_keeps_series:
  assumes "d = ReadThrows msg \<or> d = SheetThrows sheet msg"
  shows "data (handleFileUpload h (Some (name, d)) st) = data st
    \<and> error (handleFileUpload h (Some (name, d)) st) = ''Error processing file: '' @ msg
    \<and> (\<exists>before. debugInfo (handleFileUpload h (Some (name, d)) st)
                  = before @ [CHR 0x0A] @ ''Error: '' @ msg)
    \<and> data (handleFileUpload_MD h (Some (name, d)) st) = data st
    \<and> error (handleFileUpload_MD h (Some (name, d)) st) = ''Error reading Excel file: '' @ msg
    \<and> (\<exists>before. debugInfo (handleFileUpload_MD h (Some (name, d)) st)
                  = before @ [CHR 0x0A] @ ''Error: '' @ msg)"
  using assms
  by (auto simp: handleFileUpload_def readExcelFile_def handleFileUpload_MD_def catch_MD_def Let_def)

theorem decode_failure_keeps_series_witness:
  "data (handleFileUpload example_host (Some (''a.xlsx'', ReadThrows ''bad zip'')) example_state)
     = data example_state
   \<and> error (handleFileUpload example_host (Some (''a.xlsx'', ReadThrows ''bad zip'')) example_state)
     = ''Error processing file: bad zip''
   \<and> error (handleFileUpload_MD example_host (Some (''a.xlsx'', ReadThrows ''bad zip'')) example_state)
     = ''Error reading Excel file: bad zip''"
  using decode_failure_keeps_series
    [where d = "ReadThrows ''bad zip''" and msg = "''bad zip''" and sheet = "''''"
       and h = example_host and name = "''a.xlsx''" and st = example_state]
  by simp

section \<open>Properties of the series\<close>

lemma record_time_processRow:
  "record_time h (processRow h row) = newDate h (formatDate h (get_prop row ''Date''))"
  by (simp add: record_time_def get_prop_def processRow_Date)

lemma get_prop_january_Date: "get_prop january_row ''Date'' = JStr ''2024-01-15''"
  by (simp add: get_prop_def january_row_def)

lemma get_prop_february_Date: "get_prop february_row ''Date'' = JStr ''2024-02-01''"
  by (simp add: get_prop_def february_row_def)

lemma record_time_january:
  "record_time example_host (processRow example_host january_row) = Some 1705276800000"
  by (simp add: record_time_processRow get_prop_january_Date formatDate_def newDate_def
      example_host_def)

lemma record_time_february:
  "record_time example_host (processRow example_host february_row) = Some 1706745600000"
  by (simp add: record_time_processRow get_prop_february_Date formatDate_def newDate_def
      example_host_def)

lemma successively_times:
  "successively (in_order (dateCompare h)) xs \<Longrightarrow> \<forall>r\<in>set xs. record_time h r \<noteq> None
   \<Longrightarrow> successively (\<lambda>a b. the (record_time h a) \<le> the (record_time h b)) xs"
  by (induction xs rule: induct_list012) (auto dest: in_order_dateCompare)

subsection \<open>The seven rows under V8\<close>

lemma record_time_dated_row:
  "record_time example_host (processRow example_host (dated_row ''2024-01-02'' n)) = Some 1704153600000"
  "record_time example_host (processRow example_host (dated_row ''2024-01-01'' n)) = Some 1704067200000"
  "record_time example_host (processRow example_host (dated_row ''to be announced'' n)) = None"
  by (simp_all add: record_time_processRow dated_row_def get_prop_def formatDate_def newDate_def
      example_host_def)

lemma Gifts_numeric: "''Gifts'' \<in> set numeric_columns"
  by (simp add: numeric_columns_def core_columns_def)

lemma Gifts_dated_row:
  "n \<noteq> 0 \<Longrightarrow> processRow h (dated_row date n) ''Gifts'' = Some (JNum (Fin n))"
  by (simp add: processRow_numeric[OF Gifts_numeric] dated_row_def get_prop_def
      cleanNumber_def cleanNumber_with_def)

lemma sort_compare_dateCompare:
  "sort_compare (dateCompare h) a b =
     (case (record_time h a, record_time h b) of (Some x, Some y) \<Rightarrow> x - y | _ \<Rightarrow> 0)"
  by (simp add: sort_compare_def dateCompare_def record_time_def split: option.splits)

lemma upt_7: "[0..<7] = [0, 1, 2, 3, 4, 5, 6]"
  by code_simp

lemma seven_rows_not_consistent:
  "\<not> consistent_comparator (dateCompare example_host) (map (processRow example_host) seven_rows)"
proof (rule not_consistent)
  show "processRow example_host (dated_row ''2024-01-02'' 1) \<in> set (map (processRow example_host) seven_rows)"
    "processRow example_host (dated_row ''to be announced'' 3) \<in> set (map (processRow example_host) seven_rows)"
    "processRow example_host (dated_row ''2024-01-01'' 2) \<in> set (map (processRow example_host) seven_rows)"
    by (simp_all add: seven_rows_def)
  show "sort_compare (dateCompare example_host) (processRow example_host (dated_row ''2024-01-02'' 1))
      (processRow example_host (dated_row ''to be announced'' 3)) = 0"
    "sort_compare (dateCompare example_host) (processRow example_host (dated_row ''to be announced'' 3))
      (processRow example_host (dated_row ''2024-01-01'' 2)) = 0"
    "sort_compare (dateCompare example_host) (processRow example_host (dated_row ''2024-01-02'' 1))
      (processRow example_host (dated_row ''2024-01-01'' 2)) \<noteq> 0"
    by (simp_all add: sort_compare_dateCompare record_time_dated_row)
qed

lemma v8_order_seven_rows:
  "v8_order (\<lambda>i j. sort_compare (dateCompare example_host)
        (map (processRow example_host) seven_rows ! i) (map (processRow example_host) seven_rows ! j)) 7
     = [1, 3, 4, 6, 0, 2, 5]"
  by (simp add: v8_order_def v8_sort_def upt_7 seven_rows_def binary_insert_def
      binary_search.simps sort_compare_dateCompare record_time_dated_row Let_def)

lemma seven_rows_sorted:
  "js_sort example_host (dateCompare example_host) (map (processRow example_host) seven_rows)
     = map (processRow example_host)
        [dated_row ''2024-01-01'' 2, dated_row ''2024-01-01'' 4, dated_row ''2024-01-01'' 5,
         dated_row ''2024-01-01'' 7, dated_row ''2024-01-02'' 1, dated_row ''to be announced'' 3,
         dated_row ''2024-01-01'' 6]"
proof -
  have len: "length (map (processRow example_host) seven_rows) = 7"
    by (simp add: seven_rows_def)
  have eng: "engine_order example_host = v8_order"
    by (simp add: example_host_def)
  have "engine_sort example_host (dateCompare example_host) (map (processRow example_host) seven_rows)
      = map (\<lambda>i. map (processRow example_host) seven_rows ! i) [1, 3, 4, 6, 0, 2, 5]"
    unfolding engine_sort_def Let_def len eng v8_order_seven_rows
    by (simp add: upt_7)
  also have "\<dots> = map (processRow example_host)
        [dated_row ''2024-01-01'' 2, dated_row ''2024-01-01'' 4, dated_row ''2024-01-01'' 5,
         dated_row ''2024-01-01'' 7, dated_row ''2024-01-02'' 1, dated_row ''to be announced'' 3,
         dated_row ''2024-01-01'' 6]"
    by (simp add: seven_rows_def)
  finally show ?thesis
    using seven_rows_not_consistent by (simp add: js_sort_def)
qed

text \<open>
  C4, as stated, fails. One date of the seven rows does not parse, so the comparator is
  not consistent and the order is the engine's. V8 returns the rows 2, 4, 5, 7, 1, 3, 6:
  the rows 6 and 7 have the same valid date and have changed places.
\<close>

theorem equal_dates_swapped_counterexample:
  "map (\<lambda>r. r ''Gifts'') (data (snd (processData example_host seven_rows example_state)))
     = [Some (JNum (Fin 2)), Some (JNum (Fin 4)), Some (JNum (Fin 5)), Some (JNum (Fin 7)),
        Some (JNum (Fin 1)), Some (JNum (Fin 3)), Some (JNum (Fin 6))]
   \<and> filter (\<lambda>r. record_time example_host r = Some 1704067200000)
        (data (snd (processData example_host seven_rows example_state)))
     \<noteq> filter (\<lambda>r. record_time example_host r = Some 1704067200000)
        (map (processRow example_host) seven_rows)"
proof -
  have order: "map (\<lambda>r. r ''Gifts'') (data (snd (processData example_host seven_rows example_state)))
     = [Some (JNum (Fin 2)), Some (JNum (Fin 4)), Some (JNum (Fin 5)), Some (JNum (Fin 7)),
        Some (JNum (Fin 1)), Some (JNum (Fin 3)), Some (JNum (Fin 6))]"
    by (simp add: processData_data seven_rows_sorted Gifts_dated_row)
  have "map (\<lambda>r. r ''Gifts'') (filter (\<lambda>r. record_time example_host r = Some 1704067200000)
        (data (snd (processData example_host seven_rows example_state))))
      = [Some (JNum (Fin 2)), Some (JNum (Fin 4)), Some (JNum (Fin 5)), Some (JNum (Fin 7)),
         Some (JNum (Fin 6))]"
    by (simp add: processData_data seven_rows_sorted record_time_dated_row Gifts_dated_row)
  moreover have "map (\<lambda>r. r ''Gifts'') (filter (\<lambda>r. record_time example_host r = Some 1704067200000)
        (map (processRow example_host) seven_rows))
      = [Some (JNum (Fin 2)), Some (JNum (Fin 4)), Some (JNum (Fin 5)), Some (JNum (Fin 6)),
         Some (JNum (Fin 7))]"
    by (simp add: seven_rows_def record_time_dated_row Gifts_dated_row)
  ultimately have "filter (\<lambda>r. record_time example_host r = Some 1704067200000)
        (data (snd (processData example_host seven_rows example_state)))
     \<noteq> filter (\<lambda>r. record_time example_host r = Some 1704067200000)
        (map (processRow example_host) seven_rows)"
    by auto
  then show ?thesis using order by simp
qed

text \<open>
  C4, amended. A built series holds the mapped rows, in some order. When every date of
  the batch is valid, two neighbours are in ascending order of their time values and the
  records of any one date stand in the order of their rows in the input. (With an invalid
  date in the batch the order is the engine's.)
\<close>

theorem series_sorted_and_stable_when_dates_valid:
  "mset (data (snd (processData h rows st))) = mset (map (processRow h) rows)
   \<and> ((\<forall>row\<in>set rows. record_time h (processRow h row) \<noteq> None) \<longrightarrow>
        (\<forall>i x y. Suc i < length (data (snd (processData h rows st)))
            \<longrightarrow> record_time h (data (snd (processData h rows st)) ! i) = Some x
            \<longrightarrow> record_time h (data (snd (processData h rows st)) ! Suc i) = Some y \<longrightarrow> x \<le> y)
        \<and> (\<forall>t. filter (\<lambda>r. record_time h r = Some t) (data (snd (processData h rows st)))
              = filter (\<lambda>r. record_time h r = Some t) (map (processRow h) rows))
        \<and> sorted (map (\<lambda>r. the (record_time h r)) (data (snd (processData h rows st)))))"
proof -
  define series where "series = data (snd (processData h rows st))"
  have d: "series = js_sort h (dateCompare h) (map (processRow h) rows)"
    by (simp add: series_def processData_data)
  have perm: "mset series = mset (map (processRow h) rows)"
    by (simp add: d mset_js_sort)
  have when_valid: "(\<forall>i x y. Suc i < length series
            \<longrightarrow> record_time h (series ! i) = Some x
            \<longrightarrow> record_time h (series ! Suc i) = Some y \<longrightarrow> x \<le> y)
        \<and> (\<forall>t. filter (\<lambda>r. record_time h r = Some t) series
              = filter (\<lambda>r. record_time h r = Some t) (map (processRow h) rows))
        \<and> sorted (map (\<lambda>r. the (record_time h r)) series)"
    if valid: "\<forall>row\<in>set rows. record_time h (processRow h row) \<noteq> None"
  proof -
    have v: "\<forall>r\<in>set (map (processRow h) rows). record_time h r \<noteq> None"
      using valid by simp
    then have s: "series = stable_sort (dateCompare h) (map (processRow h) rows)"
      unfolding d by (intro js_sort_consistent dateCompare_consistent)
    have adjacent: "\<And>i. Suc i < length series \<Longrightarrow> in_order (dateCompare h) (series ! i) (series ! Suc i)"
      unfolding s by (rule successively_nth[OF stable_sort_successively])
    have stable: "\<And>t. filter (\<lambda>r. record_time h r = Some t) series
            = filter (\<lambda>r. record_time h r = Some t) (map (processRow h) rows)"
      unfolding s by (rule stable_sort_stable) (simp add: dateCompare_valid)
    have "set series = set (map (processRow h) rows)"
      using perm by (metis set_mset_mset)
    then have vs: "\<forall>r\<in>set series. record_time h r \<noteq> None"
      using v by simp
    have "successively (in_order (dateCompare h)) series"
      unfolding s by (rule stable_sort_successively)
    then have "successively (\<lambda>a b. the (record_time h a) \<le> the (record_time h b)) series"
      using vs by (rule successively_times)
    then have "successively (\<le>) (map (\<lambda>r. the (record_time h r)) series)"
      by (simp add: successively_map)
    then have "sorted (map (\<lambda>r. the (record_time h r)) series)"
      by (simp add: successively_conv_sorted_wrt)
    then show ?thesis
      using adjacent stable by (blast intro: in_order_dateCompare)
  qed
  show ?thesis
    using perm when_valid unfolding series_def by blast
qed

theorem series_sorted_and_stable_when_dates_valid_witness:
  "record_time example_host (processRow example_host february_row) \<noteq> None
   \<and> record_time example_host (processRow example_host january_row) \<noteq> None
   \<and> filter (\<lambda>r. record_time example_host r = Some 1705276800000)
        (data (snd (processData example_host [february_row, january_row] example_state)))
     = [processRow example_host january_row]
   \<and> sorted (map (\<lambda>r. the (record_time example_host r))
        (data (snd (processData example_host [february_row, january_row] example_state))))"
  using series_sorted_and_stable_when_dates_valid
    [where h = example_host and rows = "[february_row, january_row]" and st = example_state]
  by (simp add: record_time_january record_time_february)

text \<open>
  C5, as stated, fails: a malformed numeral that starts with a numeric prefix does not
  give the default 0. A row whose \<open>Gifts\<close> cell is \<open>12-34\<close> is mapped to 12.
\<close>

theorem malformed_cell_counterexample:
  "processRow example_host [''Gifts'' \<mapsto> JStr ''12-34''] ''Gifts'' = Some (JNum (Fin 12))
   \<and> Fin 12 \<noteq> Fin 0"
  by (simp add: processRow_numeric[OF Gifts_numeric] get_prop_def cleanNumber_12_34)

lemma cleanNumber_undefined: "cleanNumber JUndefined = Fin 0"
  by (simp add: cleanNumber_def cleanNumber_with_def)

lemma cleanNumber_no_prefix:
  "parseFloat (filter keeps s) = NaN \<Longrightarrow> cleanNumber (JStr s) = Fin 0"
  by (simp add: cleanNumber_def cleanNumber_with_def)

lemma cleanNumber_not_NaN: "cleanNumber v \<noteq> NaN"
  by (simp add: cleanNumber_def cleanNumber_with_not_NaN)

text \<open>
  C5, amended. The row mapper is total and drops no row: from a batch of one or more
  rows \<open>processData\<close> builds a series with exactly the mapped rows. Every numeric
  column of a record holds a number that is not NaN; it is 0 when the column is missing
  from the row and when the cell is a string without a numeric prefix after stripping.
  Every annotation column is present, with the empty string when it is missing from the
  row, and so is the date.
\<close>

theorem row_mapper_lenient:
  "(rows \<noteq> [] \<longrightarrow>
      fst (processData h rows st) = None
      \<and> length (data (snd (processData h rows st))) = length rows
      \<and> mset (data (snd (processData h rows st))) = mset (map (processRow h) rows))
   \<and> (\<forall>k\<in>set numeric_columns.
        (\<exists>n. processRow h row k = Some (JNum n) \<and> n \<noteq> NaN)
        \<and> (row k = None \<longrightarrow> processRow h row k = Some (JNum (Fin 0)))
        \<and> (\<forall>s. row k = Some (JStr s) \<longrightarrow> parseFloat (filter keeps s) = NaN
               \<longrightarrow> processRow h row k = Some (JNum (Fin 0))))
   \<and> (\<forall>k\<in>set annotation_columns.
        (\<exists>v. processRow h row k = Some v)
        \<and> (row k = None \<longrightarrow> processRow h row k = Some (JStr '''')))
   \<and> (\<exists>v. processRow h row ''Date'' = Some v)
   \<and> (row ''Date'' = None \<longrightarrow> processRow h row ''Date'' = Some (JStr ''''))"
proof -
  have batch: "rows \<noteq> [] \<longrightarrow>
      fst (processData h rows st) = None
      \<and> length (data (snd (processData h rows st))) = length rows
      \<and> mset (data (snd (processData h rows st))) = mset (map (processRow h) rows)"
    by (simp add: processData_fst processData_data length_js_sort mset_js_sort)
  have numeric: "\<forall>k\<in>set numeric_columns.
        (\<exists>n. processRow h row k = Some (JNum n) \<and> n \<noteq> NaN)
        \<and> (row k = None \<longrightarrow> processRow h row k = Some (JNum (Fin 0)))
        \<and> (\<forall>s. row k = Some (JStr s) \<longrightarrow> parseFloat (filter keeps s) = NaN
               \<longrightarrow> processRow h row k = Some (JNum (Fin 0)))"
    by (simp add: processRow_numeric get_prop_def cleanNumber_undefined cleanNumber_no_prefix
        cleanNumber_not_NaN)
  have annotation: "\<forall>k\<in>set annotation_columns.
        (\<exists>v. processRow h row k = Some v)
        \<and> (row k = None \<longrightarrow> processRow h row k = Some (JStr ''''))"
    by (simp add: processRow_annotation get_prop_def or_empty_def)
  have date: "(\<exists>v. processRow h row ''Date'' = Some v)
      \<and> (row ''Date'' = None \<longrightarrow> processRow h row ''Date'' = Some (JStr ''''))"
    by (simp add: processRow_Date get_prop_def formatDate_def)
  show ?thesis
    using batch numeric annotation date by (intro conjI) blast+
qed

theorem row_mapper_lenient_witness:
  "[january_row] \<noteq> []
   \<and> ''Wishlist Addition'' \<in> set numeric_columns
   \<and> ''UA Issue'' \<in> set annotation_columns
   \<and> january_row ''Wishlist Addition'' = None
   \<and> january_row ''UA Issue'' = None
   \<and> fst (processData example_host [january_row] example_state) = None
   \<and> length (data (snd (processData example_host [january_row] example_state))) = 1
   \<and> processRow example_host january_row ''Wishlist Addition'' = Some (JNum (Fin 0))
   \<and> processRow example_host january_row ''UA Issue'' = Some (JStr '''')"
proof -
  have a: "''Wishlist Addition'' \<in> set numeric_columns"
    by (simp add: numeric_columns_def core_columns_def)
  have b: "''UA Issue'' \<in> set annotation_columns"
    by (simp add: annotation_columns_def)
  have c: "january_row ''Wishlist Addition'' = None" "january_row ''UA Issue'' = None"
    by (simp_all add: january_row_def)
  show ?thesis
    using row_mapper_lenient
      [where rows = "[january_row]" and h = example_host and st = example_state and row = january_row]
      a b c
    by auto
qed

text \<open>
  C9. The series that \<open>processData\<close> builds is a function of the batch (and of the
  host's date parser): it is the same from any two states, and the selected region in
  particular changes neither the series nor whether an error is raised.
\<close>

theorem series_independent_of_state:
  "fst (processData h rows (st\<lparr>selectedRegion := r\<rparr>)) = fst (processData h rows st)
   \<and> data (snd (processData h rows (st\<lparr>selectedRegion := r\<rparr>))) = data (snd (processData h rows st))
   \<and> (rows \<noteq> [] \<longrightarrow> data (snd (processData h rows st)) = data (snd (processData h rows st')))"
  using processData_selectedRegion [where h = h and rows = rows and st = st and r = r]
  by (simp add: processData_data)

theorem series_independent_of_state_witness:
  "[january_row] \<noteq> []
   \<and> data (snd (processData example_host [january_row] (example_state\<lparr>selectedRegion := ''JP''\<rparr>)))
     = data (snd (processData example_host [january_row] example_state))
   \<and> data (snd (processData example_host [january_row] example_state))
     = data (snd (processData example_host [january_row]
                   (example_state\<lparr>data := [february_row], debugInfo := ''earlier''\<rparr>)))"
  using series_independent_of_state
    [where h = example_host and rows = "[january_row]" and st = example_state and r = "''JP''"
       and st' = "example_state\<lparr>data := [february_row], debugInfo := ''earlier''\<rparr>"]
  by simp

text \<open>
  The full dashboard extracts all six columns of all four regions into every record,
  whatever region is selected.
\<close>

lemma processData_region_complete:
  assumes "r \<in> set (data (snd (processData h rows st)))"
    and "region \<in> set region_codes" and "k \<in> set (region_columns region)"
  shows "\<exists>n. r k = Some (JNum n)"
proof -
  have "set (data (snd (processData h rows st))) = processRow h ` set rows"
    by (simp add: processData_data set_js_sort)
  then obtain row where "r = processRow h row" using assms(1) by auto
  moreover have "k \<in> set numeric_columns"
    using assms(2,3) by (auto simp: numeric_columns_def)
  ultimately show ?thesis by (simp add: processRow_numeric)
qed

lemma cleanNumber_7: "cleanNumber (JStr ''7'') = Fin 7"
  by code_simp

text \<open>
  C3. The claim holds for \<open>processData\<close> (\<open>processData_region_complete\<close>), but the
  component in \<open>src/MarketingDashboard.js\<close> keeps only the two Click columns of the
  region that is selected when the file is read: with \<open>KR\<close> selected, a row with a
  \<open>GA EN Cost\<close> cell gives a record without that field, where the full dashboard
  stores 7.
\<close>

theorem selected_region_only_in_MD:
  "map (\<lambda>r. r ''GA EN Cost'')
      (data (handleFileUpload_MD example_host (Some (''feb.xlsx'', Rows ''Sheet1'' [february_row])) example_state))
     = [None]
   \<and> map (\<lambda>r. r ''X KR Cost'')
      (data (handleFileUpload_MD example_host (Some (''feb.xlsx'', Rows ''Sheet1'' [february_row])) example_state))
     = [None]
   \<and> map (\<lambda>r. r ''GA EN Cost'')
      (data (handleFileUpload example_host (Some (''feb.xlsx'', Rows ''Sheet1'' [february_row])) example_state))
     = [Some (JNum (Fin 7))]"
proof -
  have md: "data (handleFileUpload_MD example_host (Some (''feb.xlsx'', Rows ''Sheet1'' [february_row])) example_state)
      = [processRow_MD ''KR'' february_row]"
    by (simp add: handleFileUpload_MD_def Let_def example_state_def)
  have full: "data (handleFileUpload example_host (Some (''feb.xlsx'', Rows ''Sheet1'' [february_row])) example_state)
      = [processRow example_host february_row]"
    by (simp add: handleFileUpload_Rows processData_data js_sort_single)
  have k: "''GA EN Cost'' \<in> set numeric_columns"
    by (simp add: numeric_columns_def region_codes_def region_columns_def)
  have v: "get_prop february_row ''GA EN Cost'' = JStr ''7''"
    by (simp add: get_prop_def february_row_def)
  have "processRow_MD ''KR'' february_row ''GA EN Cost'' = None"
    "processRow_MD ''KR'' february_row ''X KR Cost'' = None"
    by (simp_all add: processRow_MD_def)
  then show ?thesis
    by (simp add: md full processRow_numeric[OF k] v cleanNumber_7)
qed

end
